theory Spec2Isabelle
  imports Main "HOL-Library.Word"
begin

unbundle bit_operations_syntax

section \<open>The node record (include/link\_state/node.hpp)\<close>

text \<open>
  \<^verbatim>\<open>template<typename id_type, typename cost_type, size_t max_edges> struct node\<close>.
  The identifier type and the cost type are unsigned machine integers of any width:
  \<open>'i word\<close> and \<open>'c word\<close>. The two \<open>std::array\<close>s of \<open>max_edges\<close> entries are lists,
  \<open>edge_count\<close> is the \<open>uint8_t\<close> of the source. The field \<open>id\<close> is called \<open>node_id\<close>
  (\<open>id\<close> is the identity function of HOL).
\<close>

record (overloaded) ('i, 'c) node =
  node_id :: "'i word"
  edges :: "'i word list"
  edge_costs :: "'c word list"
  edge_count :: "8 word"
  previous_node :: "'i word"
  distance :: "'c word"
  shortest_path_known :: bool

text \<open>
  \<open>node() : id(0) {}\<close> with the default member initialisers: \<open>edge_costs = {1}\<close> (first
  entry 1, the others 0), \<open>edge_count = 0\<close>, \<open>previous_node = 0\<close>, \<open>distance = 0\<close>,
  \<open>shortest_path_known = false\<close>. The source gives \<open>edges\<close> no initialiser; the model
  takes the zero-filled array (what static storage holds), and no function of the
  calculator reads \<open>edges\<close> at or beyond \<open>edge_count\<close>.
\<close>

definition node_default :: "nat \<Rightarrow> ('i::len, 'c::len) node" where
  "node_default max_edges =
     \<lparr> node_id = 0,
       edges = replicate max_edges 0,
       edge_costs = (replicate max_edges 0)[0 := 1],
       edge_count = 0,
       previous_node = 0,
       distance = 0,
       shortest_path_known = False \<rparr>"

text \<open>\<open>node(id_type id) : id(id) {}\<close>\<close>

definition node_of_id :: "nat \<Rightarrow> 'i word \<Rightarrow> ('i::len, 'c::len) node" where
  "node_of_id max_edges ident = (node_default max_edges)\<lparr> node_id := ident \<rparr>"

text \<open>
  The counting loop of \<open>node(id, edges, edgecosts)\<close>: it returns at the first
  neighbour identifier 0, and increments the \<open>uint8_t\<close> counter otherwise.
\<close>

fun count_edges :: "'i::len word list \<Rightarrow> 8 word \<Rightarrow> 8 word" where
  "count_edges [] n = n"
| "count_edges (edge_id # rest) n = (if edge_id = 0 then n else count_edges rest (n + 1))"

definition node_of_edges ::
  "'i word \<Rightarrow> 'i word list \<Rightarrow> 'c word list \<Rightarrow> ('i::len, 'c::len) node" where
  "node_of_edges ident es edgecosts =
     \<lparr> node_id = ident,
       edges = es,
       edge_costs = edgecosts,
       edge_count = count_edges es 0,
       previous_node = 0,
       distance = 0,
       shortest_path_known = False \<rparr>"

text \<open>\<open>node(id, edges) : node(id, edges, {0}) { edge_costs.fill(1); }\<close>\<close>

definition node_of_neighbours :: "'i word \<Rightarrow> 'i word list \<Rightarrow> ('i::len, 'c::len) node" where
  "node_of_neighbours ident es =
     (node_of_edges ident es (replicate (length es) 0))\<lparr> edge_costs := replicate (length es) 1 \<rparr>"

section \<open>The calculator (include/link\_state/calculator.hpp)\<close>

text \<open>
  The private array \<open>nodes\<close> (a list of \<open>max_nodes\<close> entries), the private \<open>node_count\<close>
  (a \<open>size_t\<close> that never leaves \<open>0 .. max_nodes\<close> in a well-formed state, hence a
  \<open>nat\<close>) and the public \<open>max_distance\<close>. The template parameter \<open>max_nodes\<close> is the
  length of \<open>nodes\<close>; \<open>max_edges\<close> is passed to the functions that build a default node.
\<close>

record (overloaded) ('i, 'c) calculator =
  nodes :: "('i, 'c) node list"
  node_count :: nat
  max_distance :: "'c word"

text \<open>
  Undefined behaviour of the C++ program that a claim is about is a value of the model:
  an assignment to \<open>nodes[i]\<close> with \<open>i\<close> outside the \<open>std::array\<close>. It is not an error
  the caller receives (the function returns \<open>void\<close>).
\<close>

datatype fault = ArrayIndexOutOfBounds

text \<open>
  The shape every member function relies on: the source is stored, the live entries fit
  the array, and every record's arrays have \<open>max_edges\<close> entries of which at most
  \<open>max_edges\<close> are in use. In such a state all reads \<open>nodes[i]\<close>, \<open>edges[j]\<close> and
  \<open>edge_costs[j]\<close> of the functions below are in range.
\<close>

definition node_ok :: "nat \<Rightarrow> ('i::len, 'c::len) node \<Rightarrow> bool" where
  "node_ok max_edges n \<longleftrightarrow>
     length (edges n) = max_edges \<and> length (edge_costs n) = max_edges \<and>
     unat (edge_count n) \<le> max_edges"

definition calc_ok :: "nat \<Rightarrow> ('i::len, 'c::len) calculator \<Rightarrow> bool" where
  "calc_ok max_edges c \<longleftrightarrow>
     1 \<le> node_count c \<and> node_count c \<le> length (nodes c) \<and>
     list_all (node_ok max_edges) (nodes c)"

text \<open>The live identifiers in storage order, and the invariant that they differ.\<close>

definition live_ids :: "('i::len, 'c::len) calculator \<Rightarrow> 'i word list" where
  "live_ids c = map node_id (take (node_count c) (nodes c))"

definition distinct_ids :: "('i::len, 'c::len) calculator \<Rightarrow> bool" where
  "distinct_ids c \<longleftrightarrow> distinct (live_ids c)"

subsection \<open>Constructor\<close>

text \<open>
  \<^verbatim>\<open>for (size_t i = 0; i < sizeof(cost_type); i++) { temp <<= 8; temp |= 0xFF; }\<close>
  with \<open>sizeof(cost_type)\<close> the number of bytes of the cost type.
\<close>

fun max_distance_loop :: "nat \<Rightarrow> 'c::len word \<Rightarrow> 'c word" where
  "max_distance_loop 0 temp = temp"
| "max_distance_loop (Suc k) temp = max_distance_loop k (push_bit 8 temp OR 0xFF)"

definition calculator_new :: "nat \<Rightarrow> nat \<Rightarrow> 'i word \<Rightarrow> ('i::len, 'c::len) calculator" where
  "calculator_new max_edges max_nodes source_id =
     \<lparr> nodes = (replicate max_nodes (node_default max_edges))
                 [0 := (node_default max_edges)\<lparr> node_id := source_id, distance := 0 \<rparr>],
       node_count = 1,
       max_distance = max_distance_loop (LENGTH('c) div 8) 0 \<rparr>"

subsection \<open>Queries\<close>

definition get_node :: "('i::len, 'c::len) calculator \<Rightarrow> nat \<Rightarrow> ('i, 'c) node" where
  "get_node c index = nodes c ! index"

definition get_node_count :: "('i::len, 'c::len) calculator \<Rightarrow> nat" where
  "get_node_count c = node_count c"

text \<open>
  \<^verbatim>\<open>for (size_t i = 0; i < node_count; i++) if (nodes[i].id == id) return i;
  return node_count;\<close>
\<close>

function get_index_from :: "('i::len, 'c::len) calculator \<Rightarrow> 'i word \<Rightarrow> nat \<Rightarrow> nat" where
  "get_index_from c ident i =
     (if i < node_count c
      then (if node_id (nodes c ! i) = ident then i else get_index_from c ident (i + 1))
      else node_count c)"
  by pat_completeness auto
termination
  by (relation "measure (\<lambda>(c, ident, i). node_count c - i)") auto

declare get_index_from.simps [simp del]

definition get_index_by_id :: "('i::len, 'c::len) calculator \<Rightarrow> 'i word \<Rightarrow> nat" where
  "get_index_by_id c ident = get_index_from c ident 0"

subsection \<open>insert\_replace\<close>

text \<open>
  \<^verbatim>\<open>size_t existing_node = get_index_by_id(node.id);
  nodes[existing_node] = node;
  if (existing_node == node_count) node_count++;\<close>
  The assignment has no bounds check: with \<open>node_count = max_nodes\<close> and a new
  identifier it writes \<open>nodes[max_nodes]\<close>.
\<close>

definition insert_replace ::
  "('i::len, 'c::len) calculator \<Rightarrow> ('i, 'c) node \<Rightarrow> fault + ('i, 'c) calculator" where
  "insert_replace c n =
     (let existing_node = get_index_by_id c (node_id n) in
      if existing_node < length (nodes c)
      then Inr (c\<lparr> nodes := (nodes c)[existing_node := n],
                  node_count := (if existing_node = node_count c
                                 then node_count c + 1 else node_count c) \<rparr>)
      else Inl ArrayIndexOutOfBounds)"

subsection \<open>remove\<close>

text \<open>\<^verbatim>\<open>for (size_t i = node_index; i < node_count; i++) nodes[i] = nodes[i + 1];\<close>\<close>

function shift_down :: "('i::len, 'c::len) node list \<Rightarrow> nat \<Rightarrow> nat \<Rightarrow> ('i, 'c) node list" where
  "shift_down ns i n = (if i < n then shift_down (ns[i := ns ! (i + 1)]) (i + 1) n else ns)"
  by pat_completeness auto
termination
  by (relation "measure (\<lambda>(ns, i, n). n - i)") auto

declare shift_down.simps [simp del]

text \<open>
  The result pairs the returned \<open>bool\<close> with the state. \<open>nodes[node_count] = {}\<close> stores a
  default node.
\<close>

definition remove ::
  "nat \<Rightarrow> ('i::len, 'c::len) calculator \<Rightarrow> 'i word \<Rightarrow> bool \<times> ('i, 'c) calculator" where
  "remove max_edges c ident =
     (let node_index = get_index_by_id c ident in
      if node_index \<noteq> node_count c \<and> node_index \<noteq> 0
      then (let cnt = node_count c - 1;
                ns = shift_down (nodes c) node_index cnt
            in (True, c\<lparr> nodes := ns[cnt := node_default max_edges], node_count := cnt \<rparr>))
      else (False, c))"

subsection \<open>get\_next\_hop\<close>

text \<open>
  The \<open>while\<close> loop has no bound, so it is a partial function: \<open>None\<close> is the run that
  never returns. \<open>current_hop\<close> is a copy of a node (\<open>auto\<close>), the four tests stand in
  the order of the source, after the loop condition.
\<close>

partial_function (option) next_hop_walk ::
  "('i::len, 'c::len) calculator \<Rightarrow> ('i, 'c) node \<Rightarrow> 'i word option" where
  "next_hop_walk c current_hop =
     (if previous_node current_hop \<noteq> node_id (nodes c ! 0)
      then (let node_index = get_index_by_id c (previous_node current_hop) in
            if distance current_hop = max_distance c then Some 0
            else if \<not> shortest_path_known current_hop then Some 0
            else if previous_node current_hop = 0 then Some 0
            else if node_index = node_count c then Some 0
            else next_hop_walk c (get_node c node_index))
      else Some (node_id current_hop))"

declare next_hop_walk.simps [code]

definition get_next_hop :: "('i::len, 'c::len) calculator \<Rightarrow> 'i word \<Rightarrow> 'i word option" where
  "get_next_hop c ident =
     (let node_index = get_index_by_id c ident in
      if node_index = node_count c then Some 0
      else next_hop_walk c (get_node c node_index))"

subsection \<open>setup\<close>

text \<open>
  The inner loop over the edges of \<open>current_node\<close>, left by \<open>break\<close> at the first edge to
  the source that is cheaper than the current distance.
\<close>

function setup_edges :: "'i word \<Rightarrow> ('i::len, 'c::len) node \<Rightarrow> nat \<Rightarrow> ('i, 'c) node" where
  "setup_edges source_id current_node j =
     (if j < unat (edge_count current_node)
      then (if edges current_node ! j = source_id \<and>
               edge_costs current_node ! j < distance current_node
            then current_node\<lparr> distance := edge_costs current_node ! j,
                               previous_node := source_id \<rparr>
            else setup_edges source_id current_node (j + 1))
      else current_node)"
  by pat_completeness auto
termination
  by (relation "measure (\<lambda>(s, n, j). unat (edge_count n) - j)") auto

declare setup_edges.simps [simp del]

function setup_nodes :: "('i::len, 'c::len) calculator \<Rightarrow> nat \<Rightarrow> ('i, 'c) calculator" where
  "setup_nodes c i =
     (if i < node_count c
      then setup_nodes
             (c\<lparr> nodes := (nodes c)
                   [i := setup_edges (node_id (nodes c ! 0))
                           ((nodes c ! i)\<lparr> shortest_path_known := False,
                                            distance := max_distance c \<rparr>) 0] \<rparr>)
             (i + 1)
      else c)"
  by pat_completeness auto
termination
  by (relation "measure (\<lambda>(c, i). node_count c - i)") auto

declare setup_nodes.simps [simp del]

text \<open>
  \<open>setup()\<close>; the name \<open>setup\<close> is a command of Isabelle, so the function is \<open>setup_phase\<close>
  ("Setup phase for Link\_state routing algorithm").
\<close>

definition setup_phase :: "('i::len, 'c::len) calculator \<Rightarrow> ('i, 'c) calculator" where
  "setup_phase c =
     setup_nodes (c\<lparr> nodes := (nodes c)[0 := (nodes c ! 0)\<lparr> shortest_path_known := True \<rparr>] \<rparr>) 1"

subsection \<open>loop\<close>

text \<open>
  The scan for the nearest node that is not yet known: \<open>i\<close> runs from 1, the pair is
  \<open>(min_distance, min_distance_node)\<close>, and only a strictly smaller distance replaces it.
\<close>

function find_min ::
  "('i::len, 'c::len) calculator \<Rightarrow> nat \<Rightarrow> 'c word \<times> nat \<Rightarrow> 'c word \<times> nat" where
  "find_min c i (min_distance, min_distance_node) =
     (if i < node_count c
      then (if shortest_path_known (nodes c ! i)
            then find_min c (i + 1) (min_distance, min_distance_node)
            else if distance (nodes c ! i) < min_distance
            then find_min c (i + 1) (distance (nodes c ! i), i)
            else find_min c (i + 1) (min_distance, min_distance_node))
      else (min_distance, min_distance_node))"
  by pat_completeness auto
termination
  by (relation "measure (\<lambda>(c, i, p). node_count c - i)") auto

declare find_min.simps [simp del]

text \<open>
  The loop over the edges of \<open>current_node = nodes[m]\<close>, its body first.
  \<open>current_node\<close> and \<open>neighbour\<close> are references into \<open>nodes\<close>, so every iteration
  reads both from the current array (they are the same entry for an edge of a node to
  itself). \<open>continue\<close> leaves the state as it is. The sum is the addition of the cost
  type, which wraps around: the arithmetic of a cost type at least as wide as \<open>int\<close>
  (\<open>uint32_t\<close> in the examples). For a narrower cost type C++ compares the promoted
  sum, which does not wrap; the two agree whenever the sum stays below \<open>max_distance\<close>.
\<close>

definition relax_edge ::
  "('i::len, 'c::len) calculator \<Rightarrow> nat \<Rightarrow> nat \<Rightarrow> ('i, 'c) calculator" where
  "relax_edge c m edge_id =
     (let neighbour_index = get_index_by_id c (edges (nodes c ! m) ! edge_id) in
      if neighbour_index = node_count c then c
      else if shortest_path_known (nodes c ! neighbour_index) then c
      else if distance (nodes c ! m) + edge_costs (nodes c ! m) ! edge_id
                < distance (nodes c ! neighbour_index)
      then c\<lparr> nodes := (nodes c)
                [neighbour_index := (nodes c ! neighbour_index)
                   \<lparr> distance := distance (nodes c ! m) + edge_costs (nodes c ! m) ! edge_id,
                     previous_node := node_id (nodes c ! m) \<rparr>] \<rparr>
      else c)"

function relax_edges ::
  "('i::len, 'c::len) calculator \<Rightarrow> nat \<Rightarrow> nat \<Rightarrow> ('i, 'c) calculator" where
  "relax_edges c m edge_id =
     (if edge_id < unat (edge_count (nodes c ! m))
      then relax_edges (relax_edge c m edge_id) m (edge_id + 1)
      else c)"
  by pat_completeness auto
termination
proof (relation "measure (\<lambda>(c, m, e). 256 - e)", goal_cases)
  case 1
  show ?case by simp
next
  case (2 c m e)
  have "unat (edge_count (nodes c ! m)) < 256"
    using unsigned_less [of "edge_count (nodes c ! m)", where 'a = nat] by simp
  with 2 show ?case by simp
qed

declare relax_edges.simps [simp del]

text \<open>
  The body of the outer loop for the chosen node: its edges are relaxed, and then
  \<open>current_node.shortest_path_known = true\<close>.
\<close>

definition finalize :: "('i::len, 'c::len) calculator \<Rightarrow> nat \<Rightarrow> ('i, 'c) calculator" where
  "finalize c min_distance_node =
     (let c' = relax_edges c min_distance_node 0 in
      c'\<lparr> nodes := (nodes c')
            [min_distance_node := (nodes c' ! min_distance_node)
               \<lparr> shortest_path_known := True \<rparr>] \<rparr>)"

text \<open>
  The outer \<open>for\<close> loop, from \<open>definitive_node_count\<close> on: \<open>return\<close> when the minimum
  found is \<open>max_distance\<close>, the body above otherwise.
\<close>

function loop_from :: "('i::len, 'c::len) calculator \<Rightarrow> nat \<Rightarrow> ('i, 'c) calculator" where
  "loop_from c definitive_node_count =
     (if definitive_node_count < node_count c
      then (case find_min c 1 (max_distance c, 0) of
              (min_distance, min_distance_node) \<Rightarrow>
                if min_distance = max_distance c then c
                else loop_from (finalize c min_distance_node) (definitive_node_count + 1))
      else c)"
  by pat_completeness auto
termination
proof (relation "measure (\<lambda>(c, k). node_count c - k)", goal_cases)
  case 1
  show ?case by simp
next
  case (2 c k md mn)
  have "node_count (relax_edges d m e) = node_count d" for d :: "('a, 'b) calculator" and m e
  proof (induction d m e rule: relax_edges.induct)
    case (1 d m e)
    have "node_count (relax_edge d m e) = node_count d"
      by (simp add: relax_edge_def Let_def)
    with 1 show ?case
      by (subst relax_edges.simps) auto
  qed
  with 2 show ?case by (simp add: finalize_def Let_def)
qed

declare loop_from.simps [simp del]

definition loop :: "('i::len, 'c::len) calculator \<Rightarrow> ('i, 'c) calculator" where
  "loop c = loop_from c 1"

subsection \<open>cleanup\<close>

text \<open>
  \<^verbatim>\<open>for (uint8_t current_node = 0; current_node < node_count; current_node++) {
      if (nodes[current_node].distance == max_distance) {
          remove(nodes[current_node].id);
          current_node--;
      }
  }\<close>
  The counter is an 8-bit word, compared with \<open>node_count\<close> as a number; the result of
  \<open>remove\<close> is dropped. Nothing bounds the loop, so it is a partial function: \<open>None\<close> is
  the run that never returns.
\<close>

partial_function (option) cleanup_scan ::
  "nat \<Rightarrow> ('i::len, 'c::len) calculator \<Rightarrow> 8 word \<Rightarrow> ('i, 'c) calculator option" where
  "cleanup_scan max_edges c current_node =
     (if unat current_node < node_count c
      then (if distance (nodes c ! unat current_node) = max_distance c
            then cleanup_scan max_edges
                   (snd (remove max_edges c (node_id (nodes c ! unat current_node))))
                   ((current_node - 1) + 1)
            else cleanup_scan max_edges c (current_node + 1))
      else Some c)"

declare cleanup_scan.simps [code]

definition cleanup ::
  "nat \<Rightarrow> ('i::len, 'c::len) calculator \<Rightarrow> bool \<Rightarrow> ('i, 'c) calculator option" where
  "cleanup max_edges c calculate =
     cleanup_scan max_edges (if calculate then loop (setup_phase c) else c) 0"

section \<open>Shortest paths over the stored topology\<close>

text \<open>
  The edges in use of a record, as pairs of neighbour identifier and cost: the first
  \<open>edge_count\<close> entries of the two parallel arrays.
\<close>

definition links :: "('i::len, 'c::len) node \<Rightarrow> ('i word \<times> 'c word) list" where
  "links n = zip (take (unat (edge_count n)) (edges n)) (take (unat (edge_count n)) (edge_costs n))"

text \<open>
  A known edge: the record of the live node \<open>u\<close> lists the live node \<open>v\<close> with cost \<open>w\<close>
  (read as a number). Edges to identifiers that are not live are not known edges.
\<close>

definition stored_edge ::
  "('i::len, 'c::len) calculator \<Rightarrow> 'i word \<Rightarrow> 'i word \<Rightarrow> nat \<Rightarrow> bool" where
  "stored_edge c u v w \<longleftrightarrow>
     (\<exists>n \<in> set (take (node_count c) (nodes c)).
        node_id n = u \<and> (\<exists>cost. (v, cost) \<in> set (links n) \<and> unat cost = w)) \<and>
     v \<in> set (live_ids c)"

text \<open>
  \<open>path_cost c v k\<close>: some path from the source (the node at position 0) to \<open>v\<close> along
  known edges has total cost \<open>k\<close>. The true shortest-path cost of \<open>v\<close> is the cost of a
  path that no other path undercuts.
\<close>

inductive path_cost ::
  "('i::len, 'c::len) calculator \<Rightarrow> 'i word \<Rightarrow> nat \<Rightarrow> bool" for c where
  path_start: "path_cost c (node_id (nodes c ! 0)) 0"
| path_step: "path_cost c u k \<Longrightarrow> stored_edge c u v w \<Longrightarrow> path_cost c v (k + w)"

definition shortest_path_cost ::
  "('i::len, 'c::len) calculator \<Rightarrow> 'i word \<Rightarrow> nat \<Rightarrow> bool" where
  "shortest_path_cost c v d \<longleftrightarrow> path_cost c v d \<and> (\<forall>k. path_cost c v k \<longrightarrow> d \<le> k)"

definition reachable :: "('i::len, 'c::len) calculator \<Rightarrow> 'i word \<Rightarrow> bool" where
  "reachable c v \<longleftrightarrow> (\<exists>k. path_cost c v k)"

text \<open>
  The conditions on the topology under which setup and loop compute shortest paths.
  The costs the record \<open>n\<close> lists for the neighbour \<open>v\<close>:
\<close>

definition costs_to :: "('i::len, 'c::len) node \<Rightarrow> 'i word \<Rightarrow> 'c word list" where
  "costs_to n v = map snd (filter (\<lambda>p. fst p = v) (links n))"

text \<open>
  Links of the source are stored symmetrically: every other live node lists the source
  with the costs with which the source lists that node, and lists it at most once.
\<close>

definition source_links_symmetric :: "('i::len, 'c::len) calculator \<Rightarrow> bool" where
  "source_links_symmetric c \<longleftrightarrow>
     list_all
       (\<lambda>n. set (costs_to n (node_id (nodes c ! 0))) = set (costs_to (nodes c ! 0) (node_id n)) \<and>
            length (costs_to n (node_id (nodes c ! 0))) \<le> 1)
       (drop 1 (take (node_count c) (nodes c)))"

text \<open>
  The cost type is wide enough: \<open>node_count\<close> times any cost in use stays below
  \<open>max_distance\<close>, so that no sum along a path without repeated nodes wraps around or
  reaches \<open>max_distance\<close>.
\<close>

definition costs_bounded :: "('i::len, 'c::len) calculator \<Rightarrow> bool" where
  "costs_bounded c \<longleftrightarrow>
     list_all
       (\<lambda>n. list_all (\<lambda>p. unat (snd p) * node_count c < unat (max_distance c)) (links n))
       (take (node_count c) (nodes c))"

section \<open>Invariants of setup and loop\<close>

text \<open>
  setup and loop change only \<open>previous_node\<close>, \<open>distance\<close> and \<open>shortest_path_known\<close>:
  the state \<open>c'\<close> stores the topology of \<open>c\<close>.
\<close>

definition same_topology ::
  "('i::len, 'c::len) calculator \<Rightarrow> ('i, 'c) calculator \<Rightarrow> bool" where
  "same_topology c c' \<longleftrightarrow>
     node_count c' = node_count c \<and> max_distance c' = max_distance c \<and>
     length (nodes c') = length (nodes c) \<and>
     (\<forall>i. node_id (nodes c' ! i) = node_id (nodes c ! i) \<and>
          edges (nodes c' ! i) = edges (nodes c ! i) \<and>
          edge_costs (nodes c' ! i) = edge_costs (nodes c ! i) \<and>
          edge_count (nodes c' ! i) = edge_count (nodes c ! i))"

text \<open>
  The inner loop of loop over the edges of the chosen node \<open>m\<close>: \<open>cur\<close> is the state
  before the edge \<open>e\<close> is looked at, \<open>c\<close> the state in which the loop started. The
  distance of \<open>m\<close> has not changed, no distance has grown, a distance has changed only
  at a live node that is not known and is the end of one of the edges before \<open>e\<close>, and
  the end of each of these edges is no farther than through \<open>m\<close>.
\<close>

definition relax_inv ::
  "('i::len, 'c::len) calculator \<Rightarrow> nat \<Rightarrow> ('i, 'c) calculator \<Rightarrow> nat \<Rightarrow> bool" where
  "relax_inv c m cur e \<longleftrightarrow>
     same_topology c cur \<and>
     e \<le> unat (edge_count (nodes c ! m)) \<and>
     (\<forall>v. shortest_path_known (nodes cur ! v) = shortest_path_known (nodes c ! v)) \<and>
     distance (nodes cur ! m) = distance (nodes c ! m) \<and>
     (\<forall>v. distance (nodes cur ! v) \<le> distance (nodes c ! v)) \<and>
     (\<forall>v. distance (nodes cur ! v) \<noteq> distance (nodes c ! v) \<longrightarrow>
          v < node_count c \<and> \<not> shortest_path_known (nodes c ! v) \<and>
          (\<exists>j<e. get_index_by_id c (edges (nodes c ! m) ! j) = v \<and>
                 distance (nodes cur ! v)
                   = distance (nodes c ! m) + edge_costs (nodes c ! m) ! j)) \<and>
     (\<forall>j<e. get_index_by_id c (edges (nodes c ! m) ! j) < node_count c \<and>
            \<not> shortest_path_known (nodes c ! get_index_by_id c (edges (nodes c ! m) ! j)) \<longrightarrow>
            distance (nodes cur ! get_index_by_id c (edges (nodes c ! m) ! j))
              \<le> distance (nodes c ! m) + edge_costs (nodes c ! m) ! j)"

text \<open>
  The outer loop of loop, before the iteration with counter \<open>k\<close>. The source is known
  and has distance 0. A distance below \<open>max_distance\<close> is the cost of a path. A known
  node has a distance below \<open>max_distance\<close> that no path undercuts. A node that is not
  known is no farther than through any known node with an edge to it. The last
  conjuncts bound the distances, so that the sums of loop do not wrap around.
\<close>

definition loop_inv :: "('i::len, 'c::len) calculator \<Rightarrow> nat \<Rightarrow> bool" where
  "loop_inv c k \<longleftrightarrow>
     1 \<le> k \<and> k \<le> node_count c \<and>
     shortest_path_known (nodes c ! 0) \<and> distance (nodes c ! 0) = 0 \<and>
     (\<forall>i. 1 \<le> i \<and> i < node_count c \<and> distance (nodes c ! i) \<noteq> max_distance c \<longrightarrow>
          path_cost c (node_id (nodes c ! i)) (unat (distance (nodes c ! i)))) \<and>
     (\<forall>i. 1 \<le> i \<and> i < node_count c \<and> shortest_path_known (nodes c ! i) \<longrightarrow>
          distance (nodes c ! i) \<noteq> max_distance c \<and>
          (\<forall>k'. path_cost c (node_id (nodes c ! i)) k' \<longrightarrow> unat (distance (nodes c ! i)) \<le> k') \<and>
          unat (distance (nodes c ! i)) * node_count c
            \<le> (node_count c - 1) * (unat (max_distance c) - 1)) \<and>
     (\<forall>u v w. u < node_count c \<and> v < node_count c \<and>
          shortest_path_known (nodes c ! u) \<and> \<not> shortest_path_known (nodes c ! v) \<and>
          stored_edge c (node_id (nodes c ! u)) (node_id (nodes c ! v)) w \<longrightarrow>
          unat (distance (nodes c ! v)) \<le> unat (distance (nodes c ! u)) + w) \<and>
     (\<forall>i. 1 \<le> i \<and> i < node_count c \<and> \<not> shortest_path_known (nodes c ! i) \<and>
          distance (nodes c ! i) \<noteq> max_distance c \<longrightarrow>
          unat (distance (nodes c ! i)) * node_count c \<le> k * (unat (max_distance c) - 1))"

section \<open>Example states\<close>

text \<open>
  The scenario of the specification with 8-bit identifiers and 32-bit costs: source 1,
  links 1--2 (cost 1), 2--3 (cost 1) and 1--3 (cost 5), every link stored in the records
  of both its ends. The array is full (three of three entries).
\<close>

definition spec_example :: "(8, 32) calculator" where
  "spec_example =
     \<lparr> nodes = [node_of_edges 1 [2, 3] [1, 5],
                node_of_edges 2 [1, 3] [1, 1],
                node_of_edges 3 [1, 2] [5, 1]],
       node_count = 3,
       max_distance = 0xFFFFFFFF \<rparr>"

text \<open>Two live nodes of three: source 1 and node 2, linked with cost 1.\<close>

definition two_nodes :: "(8, 32) calculator" where
  "two_nodes =
     \<lparr> nodes = [node_of_edges 1 [2, 0] [1, 0],
                node_of_edges 2 [1, 0] [1, 0],
                node_default 2],
       node_count = 2,
       max_distance = 0xFFFFFFFF \<rparr>"

text \<open>
  A state left by an earlier run on the chain 1--2--3, after which the records of 1 and 2
  lost the link between them: node 2 still holds the predecessor 1.
\<close>

definition stale_example :: "(8, 32) calculator" where
  "stale_example =
     \<lparr> nodes = [(node_of_edges 1 [0, 0] [0, 0])\<lparr> shortest_path_known := True \<rparr>,
                (node_of_edges 2 [3, 0] [1, 0])
                  \<lparr> previous_node := 1, distance := 1, shortest_path_known := True \<rparr>,
                (node_of_edges 3 [2, 0] [1, 0])
                  \<lparr> previous_node := 2, distance := 2, shortest_path_known := True \<rparr>],
       node_count = 3,
       max_distance = 0xFFFFFFFF \<rparr>"

text \<open>
  Two finalized nodes with finite distances whose predecessors name each other. Three
  calls of insert\_replace on a new calculator store exactly these records.
\<close>

definition cycle_example :: "(8, 32) calculator" where
  "cycle_example =
     \<lparr> nodes = [(node_of_edges 1 [2, 3] [1, 1])\<lparr> shortest_path_known := True \<rparr>,
                (node_of_edges 2 [1, 3] [1, 1])
                  \<lparr> previous_node := 3, distance := 1, shortest_path_known := True \<rparr>,
                (node_of_edges 3 [1, 2] [1, 1])
                  \<lparr> previous_node := 2, distance := 1, shortest_path_known := True \<rparr>],
       node_count = 3,
       max_distance = 0xFFFFFFFF \<rparr>"

text \<open>
  Only topology, as insert\_replace of new records leaves it: node 2 lists the source
  with cost 5 and itself with the largest cost.
\<close>

definition self_edge_example :: "(8, 32) calculator" where
  "self_edge_example =
     \<lparr> nodes = [node_of_edges 1 [2, 0] [5, 0],
                node_of_edges 2 [1, 2] [5, 0xFFFFFFFF],
                node_default 2],
       node_count = 2,
       max_distance = 0xFFFFFFFF \<rparr>"

text \<open>
  The records of the source and of node 2 disagree on their link: the source lists node
  2 with cost 1, node 2 lists the source with cost 5.
\<close>

definition asym_example :: "(8, 32) calculator" where
  "asym_example =
     \<lparr> nodes = [node_of_edges 1 [2, 0] [1, 0],
                node_of_edges 2 [1, 0] [5, 0],
                node_default 2],
       node_count = 2,
       max_distance = 0xFFFFFFFF \<rparr>"

text \<open>The source lists node 2 as a neighbour, node 2 lists no neighbour.\<close>

definition one_way_example :: "(8, 32) calculator" where
  "one_way_example =
     \<lparr> nodes = [node_of_edges 1 [2, 0] [1, 0],
                node_of_id 2 2,
                node_default 2],
       node_count = 2,
       max_distance = 0xFFFFFFFF \<rparr>"

text \<open>
  Source 1 and node 2 are linked with cost 1 (stored at both ends); node 3 has no link.
\<close>

definition island_example :: "(8, 32) calculator" where
  "island_example =
     \<lparr> nodes = [node_of_edges 1 [2, 0] [1, 0],
                node_of_edges 2 [1, 0] [1, 0],
                node_of_id 2 3],
       node_count = 3,
       max_distance = 0xFFFFFFFF \<rparr>"

section \<open>Lemmas about the storage operations\<close>

lemma get_index_from_bounds:
  "i \<le> node_count c \<Longrightarrow> i \<le> get_index_from c x i \<and> get_index_from c x i \<le> node_count c"
proof (induction c x i rule: get_index_from.induct)
  case (1 c ident i)
  then show ?case
    by (subst (1 2) get_index_from.simps) auto
qed

lemma get_index_from_found:
  "get_index_from c x i < node_count c \<Longrightarrow> node_id (nodes c ! get_index_from c x i) = x"
proof (induction c x i rule: get_index_from.induct)
  case (1 c ident i)
  from "1.prems" have lt: "i < node_count c"
    by (subst (asm) get_index_from.simps) (auto split: if_splits)
  show ?case
  proof (cases "node_id (nodes c ! i) = ident")
    case True
    with lt show ?thesis by (subst get_index_from.simps) simp
  next
    case False
    with lt have eq: "get_index_from c ident i = get_index_from c ident (i + 1)"
      by (subst get_index_from.simps) simp
    with 1 lt False show ?thesis by simp
  qed
qed

lemma get_index_from_first:
  "i \<le> j \<Longrightarrow> j < get_index_from c x i \<Longrightarrow> node_id (nodes c ! j) \<noteq> x"
proof (induction c x i rule: get_index_from.induct)
  case (1 c ident i)
  show ?case
  proof (cases "i < node_count c \<and> node_id (nodes c ! i) \<noteq> ident")
    case True
    then have eq: "get_index_from c ident i = get_index_from c ident (i + 1)"
      by (subst get_index_from.simps) simp
    show ?thesis
    proof (cases "j = i")
      case True
      with \<open>i < node_count c \<and> node_id (nodes c ! i) \<noteq> ident\<close> show ?thesis by simp
    next
      case False
      with "1.prems" have "i + 1 \<le> j" by simp
      with 1 True eq show ?thesis by simp
    qed
  next
    case False
    then have "get_index_from c ident i = i \<or> get_index_from c ident i = node_count c \<and> \<not> i < node_count c"
      by (subst (1 2) get_index_from.simps) auto
    with "1.prems" show ?thesis by auto
  qed
qed

lemma get_index_by_id_le: "get_index_by_id c x \<le> node_count c"
  using get_index_from_bounds [of 0 c x] by (simp add: get_index_by_id_def)

lemma get_index_by_id_found:
  "get_index_by_id c x < node_count c \<Longrightarrow> node_id (nodes c ! get_index_by_id c x) = x"
  using get_index_from_found [of c x 0] by (simp add: get_index_by_id_def)

lemma get_index_by_id_first:
  "j < get_index_by_id c x \<Longrightarrow> node_id (nodes c ! j) \<noteq> x"
  using get_index_from_first [of 0 j c x] by (simp add: get_index_by_id_def)

lemma get_index_by_id_eqI:
  assumes "i < node_count c" "node_id (nodes c ! i) = x"
    and "\<And>j. j < i \<Longrightarrow> node_id (nodes c ! j) \<noteq> x"
  shows "get_index_by_id c x = i"
proof -
  let ?r = "get_index_by_id c x"
  have "\<not> i < ?r" using get_index_by_id_first [of i c x] assms(2) by blast
  then have "?r \<le> i" by simp
  with assms(1) have "?r < node_count c" by simp
  then have "node_id (nodes c ! ?r) = x" by (rule get_index_by_id_found)
  with assms(3) [of ?r] have "\<not> ?r < i" by blast
  with \<open>?r \<le> i\<close> show ?thesis by simp
qed

lemma get_index_by_id_absent_iff:
  assumes "node_count c \<le> length (nodes c)"
  shows "get_index_by_id c x = node_count c \<longleftrightarrow> x \<notin> set (live_ids c)"
proof
  assume eq: "get_index_by_id c x = node_count c"
  show "x \<notin> set (live_ids c)"
  proof
    assume "x \<in> set (live_ids c)"
    then obtain j where "j < length (live_ids c)" "live_ids c ! j = x"
      by (auto simp: in_set_conv_nth)
    with assms have "j < node_count c" "node_id (nodes c ! j) = x"
      by (simp_all add: live_ids_def)
    with get_index_by_id_first [of j c x] eq show False by simp
  qed
next
  assume notin: "x \<notin> set (live_ids c)"
  show "get_index_by_id c x = node_count c"
  proof (rule ccontr)
    assume "get_index_by_id c x \<noteq> node_count c"
    with get_index_by_id_le [of c x] have lt: "get_index_by_id c x < node_count c" by simp
    then have "node_id (nodes c ! get_index_by_id c x) = x" by (rule get_index_by_id_found)
    moreover from lt assms have "live_ids c ! get_index_by_id c x = node_id (nodes c ! get_index_by_id c x)"
      by (simp add: live_ids_def)
    moreover from lt assms have "get_index_by_id c x < length (live_ids c)"
      by (simp add: live_ids_def)
    ultimately have "x \<in> set (live_ids c)" by (metis nth_mem)
    with notin show False by contradiction
  qed
qed

lemma get_index_by_id_distinct:
  assumes "distinct_ids c" "node_count c \<le> length (nodes c)" "i < node_count c"
  shows "get_index_by_id c (node_id (nodes c ! i)) = i"
proof (rule get_index_by_id_eqI)
  show "i < node_count c" by fact
  show "node_id (nodes c ! i) = node_id (nodes c ! i)" ..
  fix j assume "j < i"
  with assms have "live_ids c ! j \<noteq> live_ids c ! i"
    by (simp add: distinct_ids_def distinct_conv_nth live_ids_def)
  with assms \<open>j < i\<close> show "node_id (nodes c ! j) \<noteq> node_id (nodes c ! i)"
    by (simp add: live_ids_def)
qed

lemma get_index_from_cong:
  assumes "node_count c' = node_count c"
    and "\<And>j. j < node_count c \<Longrightarrow> node_id (nodes c' ! j) = node_id (nodes c ! j)"
  shows "get_index_from c' x i = get_index_from c x i"
  using assms
proof (induction c x i rule: get_index_from.induct)
  case (1 c ident i)
  show ?case
    by (subst (1 2) get_index_from.simps) (use 1 in auto)
qed

lemma get_index_by_id_cong:
  assumes "node_count c' = node_count c"
    and "\<And>j. j < node_count c \<Longrightarrow> node_id (nodes c' ! j) = node_id (nodes c ! j)"
  shows "get_index_by_id c' x = get_index_by_id c x"
  using get_index_from_cong [OF assms] by (simp add: get_index_by_id_def)

lemma insert_replace_existing:
  assumes "node_count c \<le> length (nodes c)" "node_id n \<in> set (live_ids c)"
  shows "get_index_by_id c (node_id n) < node_count c"
    and "insert_replace c n = Inr (c\<lparr> nodes := (nodes c)[get_index_by_id c (node_id n) := n] \<rparr>)"
proof -
  from assms get_index_by_id_absent_iff [of c "node_id n"] get_index_by_id_le [of c "node_id n"]
  show lt: "get_index_by_id c (node_id n) < node_count c" by auto
  with assms(1) show "insert_replace c n = Inr (c\<lparr> nodes := (nodes c)[get_index_by_id c (node_id n) := n] \<rparr>)"
    by (simp add: insert_replace_def Let_def)
qed

lemma insert_replace_new:
  assumes "node_count c < length (nodes c)" "node_id n \<notin> set (live_ids c)"
  shows "insert_replace c n =
           Inr (c\<lparr> nodes := (nodes c)[node_count c := n], node_count := node_count c + 1 \<rparr>)"
proof -
  from assms get_index_by_id_absent_iff [of c "node_id n"]
  have "get_index_by_id c (node_id n) = node_count c" by simp
  with assms(1) show ?thesis by (simp add: insert_replace_def Let_def)
qed

lemma insert_replace_overflow:
  assumes "node_count c = length (nodes c)" "node_id n \<notin> set (live_ids c)"
  shows "insert_replace c n = Inl ArrayIndexOutOfBounds"
proof -
  from assms get_index_by_id_absent_iff [of c "node_id n"]
  have "get_index_by_id c (node_id n) = node_count c" by simp
  with assms(1) show ?thesis by (simp add: insert_replace_def Let_def)
qed

lemma get_index_by_id_update_same:
  assumes "node_count c \<le> length (nodes c)" "i < node_count c" "node_id n = node_id (nodes c ! i)"
  shows "get_index_by_id (c\<lparr> nodes := (nodes c)[i := n] \<rparr>) x = get_index_by_id c x"
proof (rule get_index_by_id_cong)
  show "node_count (c\<lparr> nodes := (nodes c)[i := n] \<rparr>) = node_count c" by simp
  fix j assume "j < node_count c"
  with assms show "node_id (nodes (c\<lparr> nodes := (nodes c)[i := n] \<rparr>) ! j) = node_id (nodes c ! j)"
    by (cases "j = i") simp_all
qed

lemma calc_ok_two_nodes: "calc_ok 2 two_nodes"
  by (simp add: calc_ok_def two_nodes_def node_ok_def node_of_edges_def node_default_def)

lemma calc_ok_spec_example: "calc_ok 2 spec_example"
  by (simp add: calc_ok_def spec_example_def node_ok_def node_of_edges_def)

lemma length_shift_down: "length (shift_down ns i n) = length ns"
proof (induction ns i n rule: shift_down.induct)
  case (1 ns i n)
  then show ?case by (subst shift_down.simps) simp
qed

lemma nth_shift_down:
  "n < length ns \<Longrightarrow> j < length ns \<Longrightarrow>
   shift_down ns i n ! j = (if i \<le> j \<and> j < n then ns ! (j + 1) else ns ! j)"
proof (induction ns i n arbitrary: j rule: shift_down.induct)
  case (1 ns i n)
  show ?case
  proof (cases "i < n")
    case True
    let ?ns' = "ns[i := ns ! (i + 1)]"
    have eq: "shift_down ns i n = shift_down ?ns' (i + 1) n"
      using True by (subst shift_down.simps) simp
    have "shift_down ?ns' (i + 1) n ! j = (if i + 1 \<le> j \<and> j < n then ?ns' ! (j + 1) else ?ns' ! j)"
      using "1.IH" [OF True, of j] "1.prems" by simp
    with eq True "1.prems" show ?thesis
      by (cases "j = i") auto
  next
    case False
    then show ?thesis by (subst shift_down.simps) auto
  qed
qed

lemma remove_fails:
  assumes "node_count c \<le> length (nodes c)" "1 \<le> node_count c"
    and "ident = node_id (nodes c ! 0) \<or> ident \<notin> set (live_ids c)"
  shows "remove max_edges c ident = (False, c)"
proof -
  from assms(3) have "get_index_by_id c ident = 0 \<or> get_index_by_id c ident = node_count c"
  proof
    assume "ident = node_id (nodes c ! 0)"
    with assms(2) have "get_index_by_id c ident = 0"
      by (intro get_index_by_id_eqI) simp_all
    then show ?thesis ..
  next
    assume "ident \<notin> set (live_ids c)"
    with get_index_by_id_absent_iff [OF assms(1)] show ?thesis by blast
  qed
  then show ?thesis by (auto simp: remove_def Let_def)
qed

lemma remove_succeeds:
  assumes le: "node_count c \<le> length (nodes c)"
    and ne: "ident \<noteq> node_id (nodes c ! 0)" and live: "ident \<in> set (live_ids c)"
  defines "i \<equiv> get_index_by_id c ident"
  shows "0 < i" and "i < node_count c" and "node_id (nodes c ! i) = ident"
    and "remove max_edges c ident =
           (True, c\<lparr> nodes := take i (nodes c) @ drop (i + 1) (take (node_count c) (nodes c)) @
                               node_default max_edges # drop (node_count c) (nodes c),
                     node_count := node_count c - 1 \<rparr>)"
proof -
  from live get_index_by_id_absent_iff [OF le, of ident] get_index_by_id_le [of c ident]
  show lt: "i < node_count c" by (auto simp: i_def)
  then show idi: "node_id (nodes c ! i) = ident"
    unfolding i_def by (rule get_index_by_id_found)
  with ne show pos: "0 < i" by (cases "i = 0") auto
  let ?n = "node_count c"
  let ?ns = "(shift_down (nodes c) i (?n - 1))[?n - 1 := node_default max_edges]"
  let ?rs = "take i (nodes c) @ drop (i + 1) (take ?n (nodes c)) @
               node_default max_edges # drop ?n (nodes c)"
  have len: "length ?rs = length (nodes c)" using lt le by simp
  have "?ns = ?rs"
  proof (rule nth_equalityI)
    show "length ?ns = length ?rs" using len by (simp add: length_shift_down)
    fix j assume "j < length ?ns"
    then have j: "j < length (nodes c)" by (simp add: length_shift_down)
    have n1: "?n - 1 < length (nodes c)" using lt le by simp
    consider "j < i" | "i \<le> j" "j < ?n - 1" | "j = ?n - 1" | "?n \<le> j"
      using lt by linarith
    then show "?ns ! j = ?rs ! j"
    proof cases
      case 1
      with j lt le n1 show ?thesis
        by (simp add: nth_shift_down length_shift_down nth_append)
    next
      case 2
      with j lt le n1 show ?thesis
        by (simp add: nth_shift_down length_shift_down nth_append)
    next
      case 3
      with j lt le n1 show ?thesis
        by (simp add: nth_shift_down length_shift_down nth_append)
    next
      case 4
      with j lt le n1 have a: "?ns ! j = nodes c ! j"
        by (simp add: nth_shift_down length_shift_down)
      from 4 lt le have "j - i - (?n - Suc i) = Suc (j - ?n)" by simp
      with 4 j lt le n1 have "?rs ! j = nodes c ! j"
        by (simp add: nth_append)
      with a show ?thesis by simp
    qed
  qed
  with lt pos show "remove max_edges c ident =
           (True, c\<lparr> nodes := ?rs, node_count := node_count c - 1 \<rparr>)"
    by (simp add: remove_def Let_def i_def)
qed

lemma setup_edges_frame:
  "node_id (setup_edges s n j) = node_id n \<and> edges (setup_edges s n j) = edges n \<and>
   edge_costs (setup_edges s n j) = edge_costs n \<and> edge_count (setup_edges s n j) = edge_count n \<and>
   shortest_path_known (setup_edges s n j) = shortest_path_known n"
proof (induction s n j rule: setup_edges.induct)
  case (1 s n j)
  then show ?case by (subst (1 2 3 4 5) setup_edges.simps) auto
qed

lemma setup_edges_no_source_edge:
  "(\<And>k. j \<le> k \<Longrightarrow> k < unat (edge_count n) \<Longrightarrow> edges n ! k \<noteq> s) \<Longrightarrow> setup_edges s n j = n"
proof (induction s n j rule: setup_edges.induct)
  case (1 s n j)
  show ?case
  proof (cases "j < unat (edge_count n)")
    case True
    with "1.prems" [of j] have ne: "edges n ! j \<noteq> s" by simp
    have "setup_edges s n (j + 1) = n"
      using "1.IH" [OF True] ne "1.prems" by simp
    with True ne show ?thesis by (subst setup_edges.simps) simp
  next
    case False
    then show ?thesis by (subst setup_edges.simps) simp
  qed
qed

lemma setup_nodes_shape:
  "node_count (setup_nodes c i) = node_count c \<and> max_distance (setup_nodes c i) = max_distance c \<and>
   length (nodes (setup_nodes c i)) = length (nodes c)"
proof (induction c i rule: setup_nodes.induct)
  case (1 c i)
  then show ?case by (subst (1 2 3) setup_nodes.simps) auto
qed

lemma setup_nodes_nth:
  "1 \<le> i \<Longrightarrow> node_count c \<le> length (nodes c) \<Longrightarrow> j < length (nodes c) \<Longrightarrow>
   nodes (setup_nodes c i) ! j =
     (if i \<le> j \<and> j < node_count c
      then setup_edges (node_id (nodes c ! 0))
             ((nodes c ! j)\<lparr> shortest_path_known := False, distance := max_distance c \<rparr>) 0
      else nodes c ! j)"
proof (induction c i arbitrary: j rule: setup_nodes.induct)
  case (1 c i)
  show ?case
  proof (cases "i < node_count c")
    case True
    let ?n = "setup_edges (node_id (nodes c ! 0))
                ((nodes c ! i)\<lparr> shortest_path_known := False, distance := max_distance c \<rparr>) 0"
    let ?c' = "c\<lparr> nodes := (nodes c)[i := ?n] \<rparr>"
    have eq: "setup_nodes c i = setup_nodes ?c' (i + 1)"
      using True by (subst setup_nodes.simps) simp
    have ih: "nodes (setup_nodes ?c' (i + 1)) ! j =
      (if i + 1 \<le> j \<and> j < node_count ?c'
       then setup_edges (node_id (nodes ?c' ! 0))
              ((nodes ?c' ! j)\<lparr> shortest_path_known := False, distance := max_distance ?c' \<rparr>) 0
       else nodes ?c' ! j)"
      using "1.IH" [OF True, of j] "1.prems" by simp
    from "1.prems" True have z: "nodes ?c' ! 0 = nodes c ! 0" by simp
    show ?thesis
    proof (cases "j = i")
      case True
      with ih eq "1.prems" \<open>i < node_count c\<close> show ?thesis by simp
    next
      case False
      with ih eq z "1.prems" \<open>i < node_count c\<close> show ?thesis by auto
    qed
  next
    case False
    then show ?thesis by (subst setup_nodes.simps) auto
  qed
qed

lemma setup_phase_shape:
  "node_count (setup_phase c) = node_count c \<and> max_distance (setup_phase c) = max_distance c \<and>
   length (nodes (setup_phase c)) = length (nodes c)"
  by (simp add: setup_phase_def setup_nodes_shape)

lemma setup_phase_nth:
  assumes "1 \<le> node_count c" "node_count c \<le> length (nodes c)" "j < length (nodes c)"
  shows "nodes (setup_phase c) ! j =
     (if j = 0 then (nodes c ! 0)\<lparr> shortest_path_known := True \<rparr>
      else if j < node_count c
      then setup_edges (node_id (nodes c ! 0))
             ((nodes c ! j)\<lparr> shortest_path_known := False, distance := max_distance c \<rparr>) 0
      else nodes c ! j)"
proof -
  let ?c0 = "c\<lparr> nodes := (nodes c)[0 := (nodes c ! 0)\<lparr> shortest_path_known := True \<rparr>] \<rparr>"
  have "nodes (setup_nodes ?c0 1) ! j =
     (if 1 \<le> j \<and> j < node_count ?c0
      then setup_edges (node_id (nodes ?c0 ! 0))
             ((nodes ?c0 ! j)\<lparr> shortest_path_known := False, distance := max_distance ?c0 \<rparr>) 0
      else nodes ?c0 ! j)"
    using assms by (intro setup_nodes_nth) simp_all
  moreover from assms have "0 < length (nodes c)" by linarith
  ultimately show ?thesis
    using assms by (auto simp: setup_phase_def)
qed

section \<open>Claims about insert\_replace, remove and setup\<close>

text \<open>
  C9. insert\_replace of a record whose identifier is live replaces the record at the
  identifier's position: the position of the identifier and node\_count stay as they
  were, no other entry changes, and a second insert\_replace of the same record changes
  nothing. insert\_replace of a record with a new identifier, when an entry is free,
  stores it at position node\_count and increases node\_count by exactly 1.
\<close>

theorem insert_replace_upsert:
  assumes "calc_ok max_edges c"
  shows "(node_id n \<in> set (live_ids c) \<longrightarrow>
            (\<exists>c'. insert_replace c n = Inr c' \<and>
                  get_index_by_id c (node_id n) < node_count c \<and>
                  nodes c' = (nodes c)[get_index_by_id c (node_id n) := n] \<and>
                  get_index_by_id c' (node_id n) = get_index_by_id c (node_id n) \<and>
                  node_count c' = node_count c \<and>
                  max_distance c' = max_distance c \<and>
                  insert_replace c' n = Inr c')) \<and>
         (node_id n \<notin> set (live_ids c) \<and> node_count c < length (nodes c) \<longrightarrow>
            (\<exists>c'. insert_replace c n = Inr c' \<and>
                  nodes c' = (nodes c)[node_count c := n] \<and>
                  get_index_by_id c' (node_id n) = node_count c \<and>
                  node_count c' = node_count c + 1 \<and>
                  max_distance c' = max_distance c))"
proof (intro conjI impI)
  from assms have le: "node_count c \<le> length (nodes c)" by (simp add: calc_ok_def)
  {
    assume live: "node_id n \<in> set (live_ids c)"
    let ?i = "get_index_by_id c (node_id n)"
    let ?c' = "c\<lparr> nodes := (nodes c)[?i := n] \<rparr>"
    note lt = insert_replace_existing(1) [OF le live]
    note eq = insert_replace_existing(2) [OF le live]
    have idn: "node_id (nodes c ! ?i) = node_id n" using lt by (rule get_index_by_id_found)
    have same: "get_index_by_id ?c' (node_id n) = ?i"
      using get_index_by_id_update_same [OF le lt idn [symmetric]] .
    have live': "node_id n \<in> set (live_ids ?c')"
      using get_index_by_id_absent_iff [of ?c' "node_id n"] same lt le by simp
    have le': "node_count ?c' \<le> length (nodes ?c')" using le by simp
    have again: "insert_replace ?c' n = Inr ?c'"
      using insert_replace_existing(2) [OF le' live'] same by simp
    show "\<exists>c'. insert_replace c n = Inr c' \<and>
                  get_index_by_id c (node_id n) < node_count c \<and>
                  nodes c' = (nodes c)[get_index_by_id c (node_id n) := n] \<and>
                  get_index_by_id c' (node_id n) = get_index_by_id c (node_id n) \<and>
                  node_count c' = node_count c \<and>
                  max_distance c' = max_distance c \<and>
                  insert_replace c' n = Inr c'"
      using eq lt same again by simp
  }
  {
    assume new: "node_id n \<notin> set (live_ids c) \<and> node_count c < length (nodes c)"
    let ?c' = "c\<lparr> nodes := (nodes c)[node_count c := n], node_count := node_count c + 1 \<rparr>"
    have eq: "insert_replace c n = Inr ?c'" using insert_replace_new new by blast
    have "get_index_by_id ?c' (node_id n) = node_count c"
    proof (rule get_index_by_id_eqI)
      show "node_count c < node_count ?c'" by simp
      show "node_id (nodes ?c' ! node_count c) = node_id n" using new by simp
      fix j assume j: "j < node_count c"
      then have "live_ids c ! j = node_id (nodes c ! j)" "j < length (live_ids c)"
        using le by (simp_all add: live_ids_def)
      then have "node_id (nodes c ! j) \<in> set (live_ids c)" by (metis nth_mem)
      with new j show "node_id (nodes ?c' ! j) \<noteq> node_id n" by auto
    qed
    with eq show "\<exists>c'. insert_replace c n = Inr c' \<and>
                  nodes c' = (nodes c)[node_count c := n] \<and>
                  get_index_by_id c' (node_id n) = node_count c \<and>
                  node_count c' = node_count c + 1 \<and>
                  max_distance c' = max_distance c"
      by simp
  }
qed

theorem insert_replace_upsert_witness:
  "calc_ok 2 two_nodes \<and>
   node_id (node_of_neighbours 2 [1, 0] :: (8, 32) node) \<in> set (live_ids two_nodes) \<and>
   (\<exists>c'. insert_replace two_nodes (node_of_neighbours 2 [1, 0]) = Inr c' \<and>
         get_index_by_id two_nodes 2 = 1 \<and> get_index_by_id c' 2 = 1 \<and>
         nodes c' ! 1 = node_of_neighbours 2 [1, 0] \<and> node_count c' = 2 \<and>
         insert_replace c' (node_of_neighbours 2 [1, 0]) = Inr c') \<and>
   node_id (node_of_id 2 3 :: (8, 32) node) \<notin> set (live_ids two_nodes) \<and>
   node_count two_nodes < length (nodes two_nodes) \<and>
   (\<exists>c'. insert_replace two_nodes (node_of_id 2 3) = Inr c' \<and>
         nodes c' ! 2 = node_of_id 2 3 \<and> get_index_by_id c' 3 = 2 \<and> node_count c' = 3)"
proof -
  let ?b = "node_of_neighbours 2 [1, 0] :: (8, 32) node"
  let ?n = "node_of_id 2 3 :: (8, 32) node"
  have ok: "calc_ok 2 two_nodes" by (rule calc_ok_two_nodes)
  have idb: "node_id ?b = 2" and idn: "node_id ?n = 3"
    by (simp_all add: node_of_neighbours_def node_of_edges_def node_of_id_def node_default_def)
  have live: "node_id ?b \<in> set (live_ids two_nodes)"
    by (simp add: idb live_ids_def two_nodes_def node_of_edges_def)
  have new: "node_id ?n \<notin> set (live_ids two_nodes)"
    by (simp add: idn live_ids_def two_nodes_def node_of_edges_def)
  have free: "node_count two_nodes < length (nodes two_nodes)"
    by (simp add: two_nodes_def)
  have ix: "get_index_by_id two_nodes 2 = 1" by code_simp
  have nc: "node_count two_nodes = 2" and len: "length (nodes two_nodes) = 3"
    by (simp_all add: two_nodes_def)
  from insert_replace_upsert [OF ok, of ?b] live
  have "\<exists>c'. insert_replace two_nodes ?b = Inr c' \<and>
         get_index_by_id two_nodes 2 = 1 \<and> get_index_by_id c' 2 = 1 \<and>
         nodes c' ! 1 = ?b \<and> node_count c' = 2 \<and> insert_replace c' ?b = Inr c'"
    by (auto simp: idb ix nc len)
  moreover from insert_replace_upsert [OF ok, of ?n] new free
  have "\<exists>c'. insert_replace two_nodes ?n = Inr c' \<and>
         nodes c' ! 2 = ?n \<and> get_index_by_id c' 3 = 2 \<and> node_count c' = 3"
    by (auto simp: idn nc len)
  ultimately show ?thesis using ok live new free by blast
qed

text \<open>
  C2 (the code departs from the claim). With every entry of the array live and a new
  identifier, insert\_replace assigns to \<open>nodes[max_nodes]\<close>, outside the array, and
  would then increase node\_count beyond \<open>max_nodes\<close>; it returns \<open>void\<close>, so no
  CapacityExceeded (or any other) error reaches the caller. The state is the full
  three-entry example, the record has the new identifier 4.
\<close>

theorem insert_replace_full_overflows:
  "node_count spec_example = length (nodes spec_example) \<and>
   node_id (node_of_id 2 4 :: (8, 32) node) \<notin> set (live_ids spec_example) \<and>
   insert_replace spec_example (node_of_id 2 4) = Inl ArrayIndexOutOfBounds"
  by code_simp

text \<open>
  C6. remove returns false and changes nothing for the identifier of the source
  (position 0) and for an identifier that is not live. For a live identifier other than
  the source's it returns true; node\_count decreases by exactly 1; the entries before
  the identifier's position stay, every later live entry moves down one position (the
  live entries are the old ones without the removed one, in the same order); the
  vacated entry at the old last live position is a default node; the entries beyond the
  live ones and max\_distance are untouched.
\<close>

theorem remove_compacts:
  assumes "calc_ok max_edges c"
  shows "(ident = node_id (nodes c ! 0) \<or> ident \<notin> set (live_ids c) \<longrightarrow>
            remove max_edges c ident = (False, c)) \<and>
         (ident \<noteq> node_id (nodes c ! 0) \<and> ident \<in> set (live_ids c) \<longrightarrow>
            (\<exists>c'. remove max_edges c ident = (True, c') \<and>
                  node_count c' = node_count c - 1 \<and>
                  0 < get_index_by_id c ident \<and> get_index_by_id c ident < node_count c \<and>
                  take (node_count c') (nodes c') =
                    take (get_index_by_id c ident) (nodes c) @
                    drop (get_index_by_id c ident + 1) (take (node_count c) (nodes c)) \<and>
                  (\<forall>j. j < get_index_by_id c ident \<longrightarrow> nodes c' ! j = nodes c ! j) \<and>
                  (\<forall>j. get_index_by_id c ident \<le> j \<and> j < node_count c - 1 \<longrightarrow>
                       nodes c' ! j = nodes c ! (j + 1)) \<and>
                  nodes c' ! (node_count c - 1) = node_default max_edges \<and>
                  drop (node_count c) (nodes c') = drop (node_count c) (nodes c) \<and>
                  length (nodes c') = length (nodes c) \<and>
                  max_distance c' = max_distance c))"
proof (intro conjI impI)
  from assms have le: "node_count c \<le> length (nodes c)" and pos: "1 \<le> node_count c"
    by (simp_all add: calc_ok_def)
  {
    assume "ident = node_id (nodes c ! 0) \<or> ident \<notin> set (live_ids c)"
    then show "remove max_edges c ident = (False, c)"
      using remove_fails [OF le pos] by blast
  }
  {
    assume a: "ident \<noteq> node_id (nodes c ! 0) \<and> ident \<in> set (live_ids c)"
    let ?i = "get_index_by_id c ident"
    let ?n = "node_count c"
    let ?rs = "take ?i (nodes c) @ drop (?i + 1) (take ?n (nodes c)) @
                 node_default max_edges # drop ?n (nodes c)"
    let ?c' = "c\<lparr> nodes := ?rs, node_count := ?n - 1 \<rparr>"
    from a have ne: "ident \<noteq> node_id (nodes c ! 0)" and live: "ident \<in> set (live_ids c)"
      by simp_all
    note i0 = remove_succeeds(1) [OF le ne live]
    note il = remove_succeeds(2) [OF le ne live]
    note eq = remove_succeeds(4) [OF le ne live, of max_edges]
    have l1: "length (take ?i (nodes c) @ drop (?i + 1) (take ?n (nodes c))) = ?n - 1"
      using il le by simp
    have tk: "take (?n - 1) ?rs = take ?i (nodes c) @ drop (?i + 1) (take ?n (nodes c))"
      using l1 by (metis append_assoc append_eq_conv_conj)
    have low: "\<forall>j. j < ?i \<longrightarrow> ?rs ! j = nodes c ! j"
      using il le by (simp add: nth_append)
    have mid: "\<forall>j. ?i \<le> j \<and> j < ?n - 1 \<longrightarrow> ?rs ! j = nodes c ! (j + 1)"
      using il le by (auto simp: nth_append)
    have slot: "?rs ! (?n - 1) = node_default max_edges"
      using l1 by (metis append_assoc nth_append_length)
    have l2: "length (take ?i (nodes c) @ drop (?i + 1) (take ?n (nodes c)) @
                [node_default max_edges]) = ?n"
      using il le by simp
    have "?rs = (take ?i (nodes c) @ drop (?i + 1) (take ?n (nodes c)) @
                [node_default max_edges]) @ drop ?n (nodes c)"
      by simp
    then have dr: "drop ?n ?rs = drop ?n (nodes c)"
      using l2 by (metis append_eq_conv_conj)
    have len: "length ?rs = length (nodes c)" using il le by simp
    show "\<exists>c'. remove max_edges c ident = (True, c') \<and>
                  node_count c' = node_count c - 1 \<and>
                  0 < get_index_by_id c ident \<and> get_index_by_id c ident < node_count c \<and>
                  take (node_count c') (nodes c') =
                    take (get_index_by_id c ident) (nodes c) @
                    drop (get_index_by_id c ident + 1) (take (node_count c) (nodes c)) \<and>
                  (\<forall>j. j < get_index_by_id c ident \<longrightarrow> nodes c' ! j = nodes c ! j) \<and>
                  (\<forall>j. get_index_by_id c ident \<le> j \<and> j < node_count c - 1 \<longrightarrow>
                       nodes c' ! j = nodes c ! (j + 1)) \<and>
                  nodes c' ! (node_count c - 1) = node_default max_edges \<and>
                  drop (node_count c) (nodes c') = drop (node_count c) (nodes c) \<and>
                  length (nodes c') = length (nodes c) \<and>
                  max_distance c' = max_distance c"
      apply (rule exI [of _ ?c'])
      apply (intro conjI)
      using eq apply simp
      apply simp
      using i0 apply simp
      using il apply simp
      using tk apply simp
      using low apply simp
      using mid apply simp
      using slot apply simp
      using dr apply simp
      using len apply simp
      apply simp
      done
  }
qed

theorem remove_compacts_witness:
  "calc_ok 2 spec_example \<and>
   remove 2 spec_example 1 = (False, spec_example) \<and>
   remove 2 spec_example 9 = (False, spec_example) \<and>
   (\<exists>c'. remove 2 spec_example 2 = (True, c') \<and> node_count c' = 2 \<and>
         take (node_count c') (nodes c') = [nodes spec_example ! 0, nodes spec_example ! 2] \<and>
         nodes c' ! 2 = node_default 2)"
proof -
  have ok: "calc_ok 2 spec_example" by (rule calc_ok_spec_example)
  have src: "node_id (nodes spec_example ! 0) = 1"
    and live: "set (live_ids spec_example) = {1, 2, 3}"
    and nc: "node_count spec_example = 3"
    and ns: "nodes spec_example = [nodes spec_example ! 0, nodes spec_example ! 1, nodes spec_example ! 2]"
    by (auto simp: spec_example_def live_ids_def node_of_edges_def)
  have ix: "get_index_by_id spec_example 2 = 1" by code_simp
  have tk: "take (Suc 0) (nodes spec_example) @ drop (Suc (Suc 0)) (take 3 (nodes spec_example)) =
              [nodes spec_example ! 0, nodes spec_example ! 2]"
    by (subst (1 2) ns) simp
  from remove_compacts [OF ok, of 1] src
  have a: "remove 2 spec_example 1 = (False, spec_example)" by simp
  from remove_compacts [OF ok, of 9] live
  have b: "remove 2 spec_example 9 = (False, spec_example)" by simp
  from remove_compacts [OF ok, of 2] src live
  have "\<exists>c'. remove 2 spec_example 2 = (True, c') \<and> node_count c' = 2 \<and>
         take (node_count c') (nodes c') = [nodes spec_example ! 0, nodes spec_example ! 2] \<and>
         nodes c' ! 2 = node_default 2"
    by (auto simp: ix nc tk)
  with ok a b show ?thesis by blast
qed

text \<open>
  C10. For a live node other than the source none of whose edges in use names the
  source's identifier, setup only resets shortest\_path\_known to false and distance to
  max\_distance: previous\_node (and every other field) keeps the value it had before
  the call, also a predecessor left by an earlier run.
\<close>

theorem setup_keeps_stale_predecessor:
  assumes "calc_ok max_edges c" and "1 \<le> i" and "i < node_count c"
    and "\<forall>j < unat (edge_count (nodes c ! i)). edges (nodes c ! i) ! j \<noteq> node_id (nodes c ! 0)"
  shows "nodes (setup_phase c) ! i =
           (nodes c ! i)\<lparr> shortest_path_known := False, distance := max_distance c \<rparr> \<and>
         previous_node (nodes (setup_phase c) ! i) = previous_node (nodes c ! i)"
proof -
  let ?n = "(nodes c ! i)\<lparr> shortest_path_known := False, distance := max_distance c \<rparr>"
  from assms(1) have shape: "1 \<le> node_count c" "node_count c \<le> length (nodes c)"
    by (simp_all add: calc_ok_def)
  with assms(2,3) have "nodes (setup_phase c) ! i = setup_edges (node_id (nodes c ! 0)) ?n 0"
    by (simp add: setup_phase_nth)
  moreover have "setup_edges (node_id (nodes c ! 0)) ?n 0 = ?n"
    using assms(4) by (intro setup_edges_no_source_edge) simp
  ultimately show ?thesis by simp
qed

theorem setup_keeps_stale_predecessor_witness:
  "calc_ok 2 stale_example \<and> (1::nat) \<le> 1 \<and> 1 < node_count stale_example \<and>
   unat (edge_count (nodes stale_example ! 1)) = 1 \<and>
   edges (nodes stale_example ! 1) ! 0 \<noteq> node_id (nodes stale_example ! 0) \<and>
   previous_node (nodes stale_example ! 1) = 1 \<and>
   previous_node (nodes (setup_phase stale_example) ! 1) = 1 \<and>
   distance (nodes (setup_phase stale_example) ! 1) = max_distance stale_example \<and>
   \<not> shortest_path_known (nodes (setup_phase stale_example) ! 1)"
proof -
  have ok: "calc_ok 2 stale_example"
    by (simp add: calc_ok_def stale_example_def node_ok_def node_of_edges_def)
  have lt: "1 < node_count stale_example" by (simp add: stale_example_def)
  have ec: "unat (edge_count (nodes stale_example ! 1)) = 1"
    and e0: "edges (nodes stale_example ! 1) ! 0 \<noteq> node_id (nodes stale_example ! 0)"
    and pn: "previous_node (nodes stale_example ! 1) = 1"
    by (simp_all add: stale_example_def node_of_edges_def)
  from ec e0
  have no_edge: "\<forall>j < unat (edge_count (nodes stale_example ! 1)).
                   edges (nodes stale_example ! 1) ! j \<noteq> node_id (nodes stale_example ! 0)"
    by simp
  from setup_keeps_stale_predecessor [OF ok _ lt no_edge] pn
  have "previous_node (nodes (setup_phase stale_example) ! 1) = 1 \<and>
        distance (nodes (setup_phase stale_example) ! 1) = max_distance stale_example \<and>
        \<not> shortest_path_known (nodes (setup_phase stale_example) ! 1)"
    by simp
  with ok lt ec e0 pn show ?thesis by simp
qed

section \<open>Claims about get\_next\_hop\<close>

lemma next_hop_walk_never_returns:
  fixes c :: "('i::len, 'c::len) calculator"
  assumes closed: "\<And>n. n \<in> S \<Longrightarrow>
      previous_node n \<noteq> node_id (nodes c ! 0) \<and> distance n \<noteq> max_distance c \<and>
      shortest_path_known n \<and> previous_node n \<noteq> 0 \<and>
      get_index_by_id c (previous_node n) \<noteq> node_count c \<and>
      get_node c (get_index_by_id c (previous_node n)) \<in> S"
    and start: "n \<in> S"
  shows "next_hop_walk c n = None"
proof (rule ccontr)
  assume "next_hop_walk c n \<noteq> None"
  then obtain y where ret: "next_hop_walk c n = Some y" by auto
  have "\<not> (c = c \<and> n \<in> S)"
  proof (rule next_hop_walk.raw_induct
      [where P = "\<lambda>c' n' y'. \<not> (c' = c \<and> n' \<in> S)", OF _ ret])
    fix walk :: "('i, 'c) calculator \<Rightarrow> ('i, 'c) node \<Rightarrow> 'i word option"
      and c' :: "('i, 'c) calculator" and n' :: "('i, 'c) node" and y' :: "'i word"
    assume ih: "\<And>c'' n'' y''. walk c'' n'' = Some y'' \<Longrightarrow> \<not> (c'' = c \<and> n'' \<in> S)"
      and body: "(if previous_node n' \<noteq> node_id (nodes c' ! 0)
      then let node_index = get_index_by_id c' (previous_node n')
           in if distance n' = max_distance c' then Some 0
              else if \<not> shortest_path_known n' then Some 0
                   else if previous_node n' = 0 then Some 0
                        else if node_index = node_count c' then Some 0
                             else walk c' (get_node c' node_index)
      else Some (node_id n')) = Some y'"
    show "\<not> (c' = c \<and> n' \<in> S)"
    proof
      assume a: "c' = c \<and> n' \<in> S"
      with closed [of n'] body
      have "walk c (get_node c (get_index_by_id c (previous_node n'))) = Some y'"
        by (simp add: Let_def)
      from ih [OF this] closed [of n'] a show False by simp
    qed
  qed
  with start show False by simp
qed

lemma next_hop_walk_aborts:
  assumes "previous_node n \<noteq> node_id (nodes c ! 0)"
    and "distance n = max_distance c \<or> \<not> shortest_path_known n \<or> previous_node n = 0 \<or>
         get_index_by_id c (previous_node n) = node_count c"
  shows "next_hop_walk c n = Some 0"
  using assms by (subst next_hop_walk.simps) (auto simp: Let_def)

lemma next_hop_walk_behind_source:
  "previous_node n = node_id (nodes c ! 0) \<Longrightarrow> next_hop_walk c n = Some (node_id n)"
  by (subst next_hop_walk.simps) simp

lemma get_next_hop_absent:
  assumes "node_count c \<le> length (nodes c)" "x \<notin> set (live_ids c)"
  shows "get_next_hop c x = Some 0"
  using assms get_index_by_id_absent_iff [of c x] by (simp add: get_next_hop_def Let_def)

lemma calculator_new_ok:
  assumes "0 < max_nodes"
  shows "calc_ok max_edges (calculator_new max_edges max_nodes source_id :: ('i::len, 'c::len) calculator)"
    and "node_id (nodes (calculator_new max_edges max_nodes source_id :: ('i, 'c) calculator) ! 0) = source_id"
    and "previous_node (nodes (calculator_new max_edges max_nodes source_id :: ('i, 'c) calculator) ! 0) = 0"
    and "live_ids (calculator_new max_edges max_nodes source_id :: ('i, 'c) calculator) = [source_id]"
proof -
  let ?c = "calculator_new max_edges max_nodes source_id :: ('i, 'c) calculator"
  from assms obtain k where k: "max_nodes = Suc k" by (cases max_nodes) auto
  have dn: "node_ok max_edges (node_default max_edges :: ('i, 'c) node)"
    by (simp add: node_ok_def node_default_def)
  then have dn': "node_ok max_edges ((node_default max_edges :: ('i, 'c) node)\<lparr> node_id := source_id, distance := 0 \<rparr>)"
    by (simp add: node_ok_def)
  show "calc_ok max_edges ?c"
    using dn dn' by (simp add: calc_ok_def calculator_new_def k list_all_iff)
  show "node_id (nodes ?c ! 0) = source_id" by (simp add: calculator_new_def k)
  show "previous_node (nodes ?c ! 0) = 0" by (simp add: calculator_new_def k node_default_def)
  show "live_ids ?c = [source_id]" by (simp add: live_ids_def calculator_new_def k)
qed

lemma cycle_example_reached:
  "(case insert_replace (calculator_new 2 3 1)
           ((node_of_edges 1 [2, 3] [1, 1])\<lparr> shortest_path_known := True \<rparr>) of
      Inl f \<Rightarrow> Inl f
    | Inr c1 \<Rightarrow>
        (case insert_replace c1
                ((node_of_edges 2 [1, 3] [1, 1])
                   \<lparr> previous_node := 3, distance := 1, shortest_path_known := True \<rparr>) of
           Inl f \<Rightarrow> Inl f
         | Inr c2 \<Rightarrow>
             insert_replace c2
               ((node_of_edges 3 [1, 2] [1, 1])
                  \<lparr> previous_node := 2, distance := 1, shortest_path_known := True \<rparr>)))
   = Inr cycle_example"
  by code_simp

lemma spec_example_reached:
  "(case insert_replace (calculator_new 2 3 1) (node_of_edges 1 [2, 3] [1, 5]) of
      Inl f \<Rightarrow> Inl f
    | Inr c1 \<Rightarrow>
        (case insert_replace c1 (node_of_edges 2 [1, 3] [1, 1]) of
           Inl f \<Rightarrow> Inl f
         | Inr c2 \<Rightarrow> insert_replace c2 (node_of_edges 3 [1, 2] [5, 1])))
   = Inr spec_example"
  by code_simp

lemma spec_example_result:
  "map distance (nodes (loop (setup_phase spec_example))) = [0, 1, 2] \<and>
   map previous_node (nodes (loop (setup_phase spec_example))) = [0, 1, 2] \<and>
   get_next_hop (loop (setup_phase spec_example)) 3 = Some 2"
  by code_simp

text \<open>
  C3 (the code departs from the claim). The walk of get\_next\_hop has no bound. On the
  state whose nodes 2 and 3 are finalized, have finite distances and name each other as
  predecessor, the call for 2 never returns. The same happens after setup and loop on a
  topology in which node 2 has an edge to itself whose cost makes the sum wrap around:
  loop stores 2 as the predecessor of 2.
\<close>

theorem get_next_hop_cycle_never_returns:
  "get_next_hop cycle_example 2 = None \<and>
   get_next_hop (loop (setup_phase self_edge_example)) 2 = None"
proof
  let ?c = cycle_example
  let ?S = "{nodes ?c ! 1, nodes ?c ! 2}"
  have ix: "get_index_by_id ?c 2 = 1" "get_index_by_id ?c 3 = 2" by code_simp+
  have "next_hop_walk ?c (nodes ?c ! 1) = None"
  proof (rule next_hop_walk_never_returns [where S = ?S])
    fix n assume "n \<in> ?S"
    then consider "n = nodes ?c ! 1" | "n = nodes ?c ! 2" by auto
    then show "previous_node n \<noteq> node_id (nodes ?c ! 0) \<and> distance n \<noteq> max_distance ?c \<and>
      shortest_path_known n \<and> previous_node n \<noteq> 0 \<and>
      get_index_by_id ?c (previous_node n) \<noteq> node_count ?c \<and>
      get_node ?c (get_index_by_id ?c (previous_node n)) \<in> ?S"
    proof cases
      case 1
      have "previous_node (nodes ?c ! 1) = 3" by (simp add: cycle_example_def)
      with 1 ix show ?thesis by (simp add: get_node_def) (simp add: cycle_example_def node_of_edges_def)
    next
      case 2
      have "previous_node (nodes ?c ! 2) = 2" by (simp add: cycle_example_def)
      with 2 ix show ?thesis by (simp add: get_node_def) (simp add: cycle_example_def node_of_edges_def)
    qed
  qed simp
  then show "get_next_hop ?c 2 = None"
    by (simp add: get_next_hop_def ix get_node_def Let_def) (simp add: cycle_example_def)
next
  let ?c = "loop (setup_phase self_edge_example)"
  have c: "?c = \<lparr> nodes = [(node_of_edges 1 [2, 0] [5, 0])\<lparr> shortest_path_known := True \<rparr>,
                (node_of_edges 2 [1, 2] [5, 0xFFFFFFFF])
                  \<lparr> previous_node := 2, distance := 4, shortest_path_known := True \<rparr>,
                node_default 2],
       node_count = 2,
       max_distance = 0xFFFFFFFF \<rparr>"
    by code_simp
  let ?S = "{nodes ?c ! 1}"
  have ix: "get_index_by_id ?c 2 = 1" by code_simp
  have "next_hop_walk ?c (nodes ?c ! 1) = None"
  proof (rule next_hop_walk_never_returns [where S = ?S])
    fix n assume "n \<in> ?S"
    then have n: "n = nodes ?c ! 1" by simp
    have "previous_node (nodes ?c ! 1) = 2" by (simp add: c)
    with n ix show "previous_node n \<noteq> node_id (nodes ?c ! 0) \<and> distance n \<noteq> max_distance ?c \<and>
      shortest_path_known n \<and> previous_node n \<noteq> 0 \<and>
      get_index_by_id ?c (previous_node n) \<noteq> node_count ?c \<and>
      get_node ?c (get_index_by_id ?c (previous_node n)) \<in> ?S"
      by (simp add: get_node_def) (simp add: c node_of_edges_def)
  qed simp
  then show "get_next_hop ?c 2 = None"
    by (simp add: get_next_hop_def ix get_node_def Let_def) (simp add: c)
qed

text \<open>
  C4 (the code departs from the claim). The four tests stand inside the loop, behind
  the loop condition: for a node whose stored predecessor is the source's identifier
  the loop body is never entered and get\_next\_hop returns the node's identifier, also
  when shortest\_path\_known is false (after setup alone) and when the distance is
  max\_distance (a predecessor left by an earlier run, after setup and loop).
\<close>

theorem get_next_hop_skips_checks:
  "node_id (nodes (setup_phase two_nodes) ! 1) = 2 \<and>
   \<not> shortest_path_known (nodes (setup_phase two_nodes) ! 1) \<and>
   get_next_hop (setup_phase two_nodes) 2 = Some 2 \<and>
   node_id (nodes (loop (setup_phase stale_example)) ! 1) = 2 \<and>
   distance (nodes (loop (setup_phase stale_example)) ! 1)
     = max_distance (loop (setup_phase stale_example)) \<and>
   \<not> shortest_path_known (nodes (loop (setup_phase stale_example)) ! 1) \<and>
   get_next_hop (loop (setup_phase stale_example)) 2 = Some 2"
  by code_simp

text \<open>
  C5 (amended). For every well-formed calculator whose source has a nonzero identifier
  and the predecessor 0 (as the constructor leaves it), get\_next\_hop of the source's
  identifier returns 0: the value it returns for an identifier that is not live, so the
  two outcomes cannot be told apart.
\<close>

theorem get_next_hop_source:
  fixes c :: "('i::len, 'c::len) calculator"
  assumes "calc_ok max_edges c"
    and "node_id (nodes c ! 0) \<noteq> 0"
    and "previous_node (nodes c ! 0) = 0"
  shows "get_next_hop c (node_id (nodes c ! 0)) = Some 0 \<and>
         (\<forall>x. x \<notin> set (live_ids c) \<longrightarrow> get_next_hop c x = Some 0)"
proof
  from assms(1) have pos: "1 \<le> node_count c" and le: "node_count c \<le> length (nodes c)"
    by (simp_all add: calc_ok_def)
  from pos have ix: "get_index_by_id c (node_id (nodes c ! 0)) = 0"
    by (intro get_index_by_id_eqI) simp_all
  have "next_hop_walk c (nodes c ! 0) = Some 0"
    using assms(2,3) by (intro next_hop_walk_aborts) simp_all
  with ix pos show "get_next_hop c (node_id (nodes c ! 0)) = Some 0"
    by (simp add: get_next_hop_def Let_def get_node_def)
  show "\<forall>x. x \<notin> set (live_ids c) \<longrightarrow> get_next_hop c x = Some 0"
    using get_next_hop_absent [OF le] by blast
qed

theorem get_next_hop_source_witness:
  "calc_ok 2 (calculator_new 2 3 1 :: (8, 32) calculator) \<and>
   node_id (nodes (calculator_new 2 3 1 :: (8, 32) calculator) ! 0) = 1 \<and>
   (1 :: 8 word) \<noteq> 0 \<and>
   previous_node (nodes (calculator_new 2 3 1 :: (8, 32) calculator) ! 0) = 0 \<and>
   get_next_hop (calculator_new 2 3 1 :: (8, 32) calculator) 1 = Some 0 \<and>
   7 \<notin> set (live_ids (calculator_new 2 3 1 :: (8, 32) calculator)) \<and>
   get_next_hop (calculator_new 2 3 1 :: (8, 32) calculator) 7 = Some 0"
proof -
  let ?c = "calculator_new 2 3 1 :: (8, 32) calculator"
  have ok: "calc_ok 2 ?c" and sid: "node_id (nodes ?c ! 0) = 1"
    and pn: "previous_node (nodes ?c ! 0) = 0" and live: "live_ids ?c = [1]"
    by (simp_all add: calculator_new_ok)
  from sid have nz: "node_id (nodes ?c ! 0) \<noteq> 0" by simp
  from get_next_hop_source [OF ok nz pn] sid live
  have "get_next_hop ?c 1 = Some 0 \<and> get_next_hop ?c 7 = Some 0" by simp
  with ok sid pn live show ?thesis by simp
qed

theorem get_next_hop_source_counterexample:
  "get_next_hop (calculator_new 2 3 1 :: (8, 32) calculator) 1 = Some 0 \<and>
   get_next_hop (calculator_new 2 3 1 :: (8, 32) calculator) 1
     = get_next_hop (calculator_new 2 3 1 :: (8, 32) calculator) 7 \<and>
   get_next_hop (loop (setup_phase spec_example)) 1 = Some 0 \<and>
   get_next_hop (loop (setup_phase spec_example)) 1
     = get_next_hop (loop (setup_phase spec_example)) 7"
  by code_simp

section \<open>Lemmas about loop\<close>

lemma nth_update_preserves:
  assumes "\<And>x. f (g x) = f x"
  shows "f (ns[v := g (ns ! v)] ! i) = f (ns ! i)"
proof (cases "v < length ns")
  case True
  then show ?thesis by (cases "i = v") (auto simp: assms)
next
  case False
  then have "ns[v := g (ns ! v)] = ns" by (simp add: list_update_beyond)
  then show ?thesis by simp
qed

lemma relax_edge_frame:
  "node_count (relax_edge c m e) = node_count c \<and>
   max_distance (relax_edge c m e) = max_distance c \<and>
   length (nodes (relax_edge c m e)) = length (nodes c) \<and>
   node_id (nodes (relax_edge c m e) ! i) = node_id (nodes c ! i) \<and>
   edges (nodes (relax_edge c m e) ! i) = edges (nodes c ! i) \<and>
   edge_costs (nodes (relax_edge c m e) ! i) = edge_costs (nodes c ! i) \<and>
   edge_count (nodes (relax_edge c m e) ! i) = edge_count (nodes c ! i) \<and>
   shortest_path_known (nodes (relax_edge c m e) ! i) = shortest_path_known (nodes c ! i)"
  by (simp add: relax_edge_def Let_def nth_update_preserves
      [where g = "\<lambda>n. n\<lparr> distance := a, previous_node := b \<rparr>" for a b])

lemma relax_edges_frame:
  "node_count (relax_edges c m e) = node_count c \<and>
   max_distance (relax_edges c m e) = max_distance c \<and>
   length (nodes (relax_edges c m e)) = length (nodes c) \<and>
   (\<forall>i. node_id (nodes (relax_edges c m e) ! i) = node_id (nodes c ! i) \<and>
        edges (nodes (relax_edges c m e) ! i) = edges (nodes c ! i) \<and>
        edge_costs (nodes (relax_edges c m e) ! i) = edge_costs (nodes c ! i) \<and>
        edge_count (nodes (relax_edges c m e) ! i) = edge_count (nodes c ! i) \<and>
        shortest_path_known (nodes (relax_edges c m e) ! i) = shortest_path_known (nodes c ! i))"
proof (induction c m e rule: relax_edges.induct)
  case (1 c m e)
  show ?case
  proof (cases "e < unat (edge_count (nodes c ! m))")
    case False
    then show ?thesis by (subst (1 2 3 4 5 6 7 8) relax_edges.simps) simp
  next
    case True
    then have eq: "relax_edges c m e = relax_edges (relax_edge c m e) m (e + 1)"
      by (subst relax_edges.simps) simp
    from "1.IH" [OF True] relax_edge_frame [of c m e] show ?thesis
      unfolding eq by simp
  qed
qed

lemma find_min_spec:
  "case find_min c i p of
     (md, mn) \<Rightarrow>
       md \<le> fst p \<and>
       ((md, mn) = p \<or>
        (i \<le> mn \<and> mn < node_count c \<and> \<not> shortest_path_known (nodes c ! mn) \<and>
         distance (nodes c ! mn) = md \<and> md < fst p)) \<and>
       (\<forall>v. i \<le> v \<and> v < node_count c \<and> \<not> shortest_path_known (nodes c ! v)
            \<longrightarrow> md \<le> distance (nodes c ! v))"
proof (induction c i p rule: find_min.induct)
  case (1 c i md0 mn0)
  show ?case
  proof (cases "i < node_count c")
    case False
    then show ?thesis by (subst find_min.simps) auto
  next
    case lt: True
    show ?thesis
    proof (cases "shortest_path_known (nodes c ! i)")
      case True
      with lt have eq: "find_min c i (md0, mn0) = find_min c (i + 1) (md0, mn0)"
        by (subst find_min.simps) simp
      obtain md mn where r: "find_min c (i + 1) (md0, mn0) = (md, mn)" by force
      from "1.IH"(1) [OF lt True] r
      have a: "md \<le> md0" and b: "(md, mn) = (md0, mn0) \<or>
        (i + 1 \<le> mn \<and> mn < node_count c \<and> \<not> shortest_path_known (nodes c ! mn) \<and>
         distance (nodes c ! mn) = md \<and> md < md0)"
        and d: "\<forall>v. i + 1 \<le> v \<and> v < node_count c \<and> \<not> shortest_path_known (nodes c ! v)
            \<longrightarrow> md \<le> distance (nodes c ! v)"
        by simp_all
      have "\<forall>v. i \<le> v \<and> v < node_count c \<and> \<not> shortest_path_known (nodes c ! v)
            \<longrightarrow> md \<le> distance (nodes c ! v)"
      proof (intro allI impI)
        fix v assume v: "i \<le> v \<and> v < node_count c \<and> \<not> shortest_path_known (nodes c ! v)"
        with True have "v \<noteq> i" by auto
        with v have "i + 1 \<le> v" by simp
        with d v show "md \<le> distance (nodes c ! v)" by blast
      qed
      with a b show ?thesis unfolding eq r by auto
    next
      case unknown: False
      show ?thesis
      proof (cases "distance (nodes c ! i) < md0")
        case True
        with lt unknown
        have eq: "find_min c i (md0, mn0) = find_min c (i + 1) (distance (nodes c ! i), i)"
          by (subst find_min.simps) simp
        obtain md mn where r: "find_min c (i + 1) (distance (nodes c ! i), i) = (md, mn)"
          by force
        from "1.IH"(2) [OF lt unknown True] r
        have a: "md \<le> distance (nodes c ! i)"
          and b: "(md, mn) = (distance (nodes c ! i), i) \<or>
            (i + 1 \<le> mn \<and> mn < node_count c \<and> \<not> shortest_path_known (nodes c ! mn) \<and>
             distance (nodes c ! mn) = md \<and> md < distance (nodes c ! i))"
          and d: "\<forall>v. i + 1 \<le> v \<and> v < node_count c \<and> \<not> shortest_path_known (nodes c ! v)
            \<longrightarrow> md \<le> distance (nodes c ! v)"
          by simp_all
        have "\<forall>v. i \<le> v \<and> v < node_count c \<and> \<not> shortest_path_known (nodes c ! v)
            \<longrightarrow> md \<le> distance (nodes c ! v)"
        proof (intro allI impI)
          fix v assume v: "i \<le> v \<and> v < node_count c \<and> \<not> shortest_path_known (nodes c ! v)"
          show "md \<le> distance (nodes c ! v)"
          proof (cases "v = i")
            case True
            with a show ?thesis by simp
          next
            case False
            with v have "i + 1 \<le> v" by simp
            with d v show ?thesis by blast
          qed
        qed
        moreover from a True have "md \<le> md0" "md < md0" by auto
        moreover from b lt unknown have "i \<le> mn \<and> mn < node_count c \<and>
            \<not> shortest_path_known (nodes c ! mn) \<and> distance (nodes c ! mn) = md"
          by auto
        ultimately show ?thesis unfolding eq r by simp
      next
        case False
        with lt unknown
        have eq: "find_min c i (md0, mn0) = find_min c (i + 1) (md0, mn0)"
          by (subst find_min.simps) simp
        obtain md mn where r: "find_min c (i + 1) (md0, mn0) = (md, mn)" by force
        from "1.IH"(3) [OF lt unknown False] r
        have a: "md \<le> md0" and b: "(md, mn) = (md0, mn0) \<or>
          (i + 1 \<le> mn \<and> mn < node_count c \<and> \<not> shortest_path_known (nodes c ! mn) \<and>
           distance (nodes c ! mn) = md \<and> md < md0)"
          and d: "\<forall>v. i + 1 \<le> v \<and> v < node_count c \<and> \<not> shortest_path_known (nodes c ! v)
              \<longrightarrow> md \<le> distance (nodes c ! v)"
          by simp_all
        have "\<forall>v. i \<le> v \<and> v < node_count c \<and> \<not> shortest_path_known (nodes c ! v)
            \<longrightarrow> md \<le> distance (nodes c ! v)"
        proof (intro allI impI)
          fix v assume v: "i \<le> v \<and> v < node_count c \<and> \<not> shortest_path_known (nodes c ! v)"
          show "md \<le> distance (nodes c ! v)"
          proof (cases "v = i")
            case True
            with a False show ?thesis by simp
          next
            case False
            with v have "i + 1 \<le> v" by simp
            with d v show ?thesis by blast
          qed
        qed
        with a b show ?thesis unfolding eq r by auto
      qed
    qed
  qed
qed

text \<open>The scan of loop, started as the source starts it.\<close>

lemma find_min_found:
  assumes "find_min c 1 (max_distance c, 0) = (md, mn)" "md \<noteq> max_distance c"
  shows "1 \<le> mn" "mn < node_count c" "\<not> shortest_path_known (nodes c ! mn)"
    "distance (nodes c ! mn) = md" "md < max_distance c"
    "\<And>v. 1 \<le> v \<Longrightarrow> v < node_count c \<Longrightarrow> \<not> shortest_path_known (nodes c ! v)
        \<Longrightarrow> md \<le> distance (nodes c ! v)"
  using find_min_spec [where c = c and i = 1 and p = "(max_distance c, 0)"] assms by auto

lemma find_min_none:
  assumes "find_min c 1 (max_distance c, 0) = (md, mn)" "md = max_distance c"
    "1 \<le> v" "v < node_count c" "\<not> shortest_path_known (nodes c ! v)"
  shows "max_distance c \<le> distance (nodes c ! v)"
  using find_min_spec [where c = c and i = 1 and p = "(max_distance c, 0)"] assms by auto

lemma find_min_all_far:
  assumes "\<And>v. 1 \<le> v \<Longrightarrow> v < node_count c \<Longrightarrow> \<not> shortest_path_known (nodes c ! v)
              \<Longrightarrow> max_distance c \<le> distance (nodes c ! v)"
  shows "fst (find_min c 1 (max_distance c, 0)) = max_distance c"
proof -
  obtain md mn where r: "find_min c 1 (max_distance c, 0) = (md, mn)" by force
  show ?thesis
  proof (rule ccontr)
    assume "fst (find_min c 1 (max_distance c, 0)) \<noteq> max_distance c"
    with r have ne: "md \<noteq> max_distance c" by simp
    from find_min_found(1-5) [OF r ne] assms [of mn] show False by auto
  qed
qed

lemma finalize_frame:
  "node_count (finalize c m) = node_count c \<and>
   max_distance (finalize c m) = max_distance c \<and>
   length (nodes (finalize c m)) = length (nodes c) \<and>
   (\<forall>i. node_id (nodes (finalize c m) ! i) = node_id (nodes c ! i) \<and>
        edges (nodes (finalize c m) ! i) = edges (nodes c ! i) \<and>
        edge_costs (nodes (finalize c m) ! i) = edge_costs (nodes c ! i) \<and>
        edge_count (nodes (finalize c m) ! i) = edge_count (nodes c ! i) \<and>
        distance (nodes (finalize c m) ! i) = distance (nodes (relax_edges c m 0) ! i) \<and>
        previous_node (nodes (finalize c m) ! i) = previous_node (nodes (relax_edges c m 0) ! i))"
  using relax_edges_frame [of c m 0]
  by (simp add: finalize_def Let_def nth_update_preserves
      [where g = "\<lambda>n. n\<lparr> shortest_path_known := True \<rparr>"])

lemma finalize_known:
  assumes "m < length (nodes c)"
  shows "shortest_path_known (nodes (finalize c m) ! i)
           \<longleftrightarrow> i = m \<or> shortest_path_known (nodes c ! i)"
proof -
  let ?c' = "relax_edges c m 0"
  from assms relax_edges_frame [of c m 0] have len: "m < length (nodes ?c')" by simp
  have "shortest_path_known (nodes (finalize c m) ! i)
          \<longleftrightarrow> i = m \<or> shortest_path_known (nodes ?c' ! i)"
    using len by (cases "i = m") (simp_all add: finalize_def Let_def)
  with relax_edges_frame [of c m 0] show ?thesis by simp
qed

lemma loop_from_done: "\<not> k < node_count c \<Longrightarrow> loop_from c k = c"
  by (subst loop_from.simps) simp

lemma loop_from_stop:
  assumes "k < node_count c" "fst (find_min c 1 (max_distance c, 0)) = max_distance c"
  shows "loop_from c k = c"
  using assms by (subst loop_from.simps) (simp add: case_prod_beta)

lemma loop_from_step:
  assumes "k < node_count c" "find_min c 1 (max_distance c, 0) = (md, mn)"
    "md \<noteq> max_distance c"
  shows "loop_from c k = loop_from (finalize c mn) (k + 1)"
  using assms by (subst loop_from.simps) simp

lemma loop_from_shape:
  "node_count (loop_from c k) = node_count c \<and> max_distance (loop_from c k) = max_distance c \<and>
   length (nodes (loop_from c k)) = length (nodes c) \<and>
   (\<forall>i. node_id (nodes (loop_from c k) ! i) = node_id (nodes c ! i) \<and>
        edges (nodes (loop_from c k) ! i) = edges (nodes c ! i) \<and>
        edge_costs (nodes (loop_from c k) ! i) = edge_costs (nodes c ! i) \<and>
        edge_count (nodes (loop_from c k) ! i) = edge_count (nodes c ! i))"
proof (induction c k rule: loop_from.induct)
  case (1 c k)
  obtain md mn where r: "find_min c 1 (max_distance c, 0) = (md, mn)" by force
  consider "\<not> k < node_count c" | "k < node_count c" "md = max_distance c"
    | "k < node_count c" "md \<noteq> max_distance c" by blast
  then show ?case
  proof cases
    case 1
    then show ?thesis by (simp add: loop_from_done)
  next
    case 2
    with r show ?thesis by (simp add: loop_from_stop)
  next
    case 3
    note eq = loop_from_step [OF 3(1) r 3(2)]
    from "1.IH" [OF 3(1) r [symmetric] 3(2)] finalize_frame [of c mn]
    show ?thesis unfolding eq by simp
  qed
qed

lemma loop_from_flags:
  assumes "node_count c \<le> length (nodes c)"
  shows "(shortest_path_known (nodes c ! i) \<longrightarrow> shortest_path_known (nodes (loop_from c k) ! i)) \<and>
         (shortest_path_known (nodes (loop_from c k) ! 0) \<longleftrightarrow> shortest_path_known (nodes c ! 0))"
  using assms
proof (induction c k rule: loop_from.induct)
  case (1 c k)
  obtain md mn where r: "find_min c 1 (max_distance c, 0) = (md, mn)" by force
  consider "\<not> k < node_count c" | "k < node_count c" "md = max_distance c"
    | "k < node_count c" "md \<noteq> max_distance c" by blast
  then show ?case
  proof cases
    case 1
    then show ?thesis by (simp add: loop_from_done)
  next
    case 2
    with r show ?thesis by (simp add: loop_from_stop)
  next
    case 3
    note eq = loop_from_step [OF 3(1) r 3(2)]
    note f = find_min_found(1,2) [OF r 3(2)]
    from f "1.prems" have len: "mn < length (nodes c)" by simp
    have le': "node_count (finalize c mn) \<le> length (nodes (finalize c mn))"
      using "1.prems" finalize_frame [of c mn] by simp
    from "1.IH" [OF 3(1) r [symmetric] 3(2) le'] finalize_known [OF len] f(1)
    show ?thesis unfolding eq by auto
  qed
qed

lemma word_ge_max: "(- 1 :: 'a::len word) \<le> x \<Longrightarrow> x = - 1"
  by (simp add: word_order.extremum_unique)

lemma loop_from_rest_unreachable:
  assumes "node_count c \<le> length (nodes c)" "max_distance c = - 1"
    and "card {i. 1 \<le> i \<and> i < node_count c \<and> \<not> shortest_path_known (nodes c ! i)} + k
           \<le> node_count c"
    and "1 \<le> i" "i < node_count c" "\<not> shortest_path_known (nodes (loop_from c k) ! i)"
  shows "distance (nodes (loop_from c k) ! i) = max_distance c"
  using assms
proof (induction c k rule: loop_from.induct)
  case (1 c k)
  let ?U = "\<lambda>c. {i. 1 \<le> i \<and> i < node_count c \<and> \<not> shortest_path_known (nodes c ! i)}"
  have fin: "finite (?U c)" by simp
  obtain md mn where r: "find_min c 1 (max_distance c, 0) = (md, mn)" by force
  consider "\<not> k < node_count c" | "k < node_count c" "md = max_distance c"
    | "k < node_count c" "md \<noteq> max_distance c" by blast
  then show ?case
  proof cases
    case 1
    with "1.prems"(3) have "card (?U c) = 0" by linarith
    with fin have "?U c = {}" using card_0_eq by blast
    moreover from 1 "1.prems" have "i \<in> ?U c" by (simp add: loop_from_done)
    ultimately show ?thesis by blast
  next
    case 2
    with r have eq: "loop_from c k = c" by (simp add: loop_from_stop)
    from find_min_none [OF r 2(2) "1.prems"(4,5)] "1.prems"(6) eq "1.prems"(2)
    show ?thesis by (simp add: word_ge_max)
  next
    case 3
    note eq = loop_from_step [OF 3(1) r 3(2)]
    note f = find_min_found(1-3) [OF r 3(2)]
    from f "1.prems" have len: "mn < length (nodes c)" by simp
    note fr = finalize_frame [of c mn]
    have le': "node_count (finalize c mn) \<le> length (nodes (finalize c mn))"
      using "1.prems" fr by simp
    have "?U (finalize c mn) = ?U c - {mn}"
      using finalize_known [OF len] fr by auto
    moreover have "mn \<in> ?U c" using f by simp
    ultimately have "card (?U (finalize c mn)) = card (?U c) - 1" "0 < card (?U c)"
      using fin by (auto simp: card_gt_0_iff)
    with "1.prems"(3) fr
    have cnt: "card (?U (finalize c mn)) + (k + 1) \<le> node_count (finalize c mn)" by simp
    from "1.IH" [OF 3(1) r [symmetric] 3(2) le' _ cnt] "1.prems" fr
    show ?thesis unfolding eq by simp
  qed
qed

lemma loop_rest_unreachable:
  assumes "1 \<le> node_count c" "node_count c \<le> length (nodes c)" "max_distance c = - 1"
    and "1 \<le> i" "i < node_count c" "\<not> shortest_path_known (nodes (loop c) ! i)"
  shows "distance (nodes (loop c) ! i) = max_distance c"
proof -
  let ?U = "{i. 1 \<le> i \<and> i < node_count c \<and> \<not> shortest_path_known (nodes c ! i)}"
  have "?U \<subseteq> {1..<node_count c}" by auto
  then have "card ?U \<le> card {1..<node_count c}" by (intro card_mono) simp_all
  with assms(1) have cnt: "card ?U + 1 \<le> node_count c" by simp
  from assms(6) loop_from_rest_unreachable [OF assms(2,3) cnt assms(4,5)]
  show ?thesis by (simp add: loop_def)
qed

section \<open>The invariant of loop\<close>

lemma in_links_iff:
  assumes "node_ok max_edges n"
  shows "(v, w) \<in> set (links n)
           \<longleftrightarrow> (\<exists>j<unat (edge_count n). edges n ! j = v \<and> edge_costs n ! j = w)"
proof -
  from assms have l: "unat (edge_count n) \<le> length (edges n)"
    "unat (edge_count n) \<le> length (edge_costs n)"
    by (simp_all add: node_ok_def)
  show ?thesis
  proof
    assume "(v, w) \<in> set (links n)"
    then obtain k where "take (unat (edge_count n)) (edges n) ! k = v"
      "take (unat (edge_count n)) (edge_costs n) ! k = w" "k < unat (edge_count n)"
      using l by (auto simp: links_def in_set_zip)
    then show "\<exists>j<unat (edge_count n). edges n ! j = v \<and> edge_costs n ! j = w"
      by (intro exI [of _ k]) simp
  next
    assume "\<exists>j<unat (edge_count n). edges n ! j = v \<and> edge_costs n ! j = w"
    then obtain j where "j < unat (edge_count n)" "edges n ! j = v" "edge_costs n ! j = w"
      by blast
    with l show "(v, w) \<in> set (links n)"
      unfolding links_def in_set_zip by (intro exI [of _ j]) simp
  qed
qed

lemma in_costs_to_iff:
  assumes "node_ok max_edges n"
  shows "w \<in> set (costs_to n v)
           \<longleftrightarrow> (\<exists>j<unat (edge_count n). edges n ! j = v \<and> edge_costs n ! j = w)"
proof -
  have "w \<in> set (costs_to n v) \<longleftrightarrow> (v, w) \<in> set (links n)"
    by (force simp: costs_to_def)
  with in_links_iff [OF assms] show ?thesis by simp
qed

lemma live_nodes_set:
  assumes "node_count c \<le> length (nodes c)"
  shows "set (take (node_count c) (nodes c)) = {nodes c ! i | i. i < node_count c}"
  using assms by (force simp: set_conv_nth)

lemma live_ids_set:
  assumes "node_count c \<le> length (nodes c)"
  shows "set (live_ids c) = {node_id (nodes c ! i) | i. i < node_count c}"
  using live_nodes_set [OF assms] by (auto simp: live_ids_def)

lemma calc_okD:
  assumes "calc_ok max_edges c"
  shows "1 \<le> node_count c" "node_count c \<le> length (nodes c)"
    "\<And>i. i < length (nodes c) \<Longrightarrow> node_ok max_edges (nodes c ! i)"
  using assms by (auto simp: calc_ok_def list_all_length)

lemma stored_edge_iff:
  assumes "calc_ok max_edges c"
  shows "stored_edge c u v w \<longleftrightarrow>
           (\<exists>i<node_count c. node_id (nodes c ! i) = u \<and>
              (\<exists>j<unat (edge_count (nodes c ! i)).
                 edges (nodes c ! i) ! j = v \<and> unat (edge_costs (nodes c ! i) ! j) = w)) \<and>
           (\<exists>i<node_count c. node_id (nodes c ! i) = v)"
proof -
  note d = calc_okD [OF assms]
  have ok: "node_ok max_edges (nodes c ! i)" if "i < node_count c" for i
    using that d(2,3) by simp
  have "stored_edge c u v w \<longleftrightarrow>
          (\<exists>i<node_count c. node_id (nodes c ! i) = u \<and>
             (\<exists>cost. (v, cost) \<in> set (links (nodes c ! i)) \<and> unat cost = w)) \<and>
          (\<exists>i<node_count c. node_id (nodes c ! i) = v)"
    unfolding stored_edge_def live_nodes_set [OF d(2)] live_ids_set [OF d(2)] by auto
  also have "\<dots> \<longleftrightarrow>
          (\<exists>i<node_count c. node_id (nodes c ! i) = u \<and>
              (\<exists>j<unat (edge_count (nodes c ! i)).
                 edges (nodes c ! i) ! j = v \<and> unat (edge_costs (nodes c ! i) ! j) = w)) \<and>
           (\<exists>i<node_count c. node_id (nodes c ! i) = v)"
    using in_links_iff [OF ok] by (metis (no_types, lifting))
  finally show ?thesis .
qed

lemma distinct_idsD:
  assumes "distinct_ids c" "node_count c \<le> length (nodes c)"
    "i < node_count c" "j < node_count c" "node_id (nodes c ! i) = node_id (nodes c ! j)"
  shows "i = j"
proof -
  from assms have "live_ids c ! i = live_ids c ! j" "i < length (live_ids c)"
    "j < length (live_ids c)" "distinct (live_ids c)"
    by (simp_all add: live_ids_def distinct_ids_def)
  then show ?thesis by (simp add: nth_eq_iff_index_eq)
qed

lemma same_topology_refl: "same_topology c c"
  by (simp add: same_topology_def)

lemma same_topology_trans:
  "same_topology a b \<Longrightarrow> same_topology b c \<Longrightarrow> same_topology a c"
  by (simp add: same_topology_def)

lemma same_topology_nodes:
  assumes "same_topology c c'"
  shows "map node_id (nodes c') = map node_id (nodes c)"
    "map links (nodes c') = map links (nodes c)"
    "list_all (node_ok max_edges) (nodes c') = list_all (node_ok max_edges) (nodes c)"
proof -
  from assms have len: "length (nodes c') = length (nodes c)"
    and eq: "\<And>i. node_id (nodes c' ! i) = node_id (nodes c ! i)"
      "\<And>i. edges (nodes c' ! i) = edges (nodes c ! i)"
      "\<And>i. edge_costs (nodes c' ! i) = edge_costs (nodes c ! i)"
      "\<And>i. edge_count (nodes c' ! i) = edge_count (nodes c ! i)"
    by (simp_all add: same_topology_def)
  show "map node_id (nodes c') = map node_id (nodes c)"
    using len eq by (intro nth_equalityI) simp_all
  show "map links (nodes c') = map links (nodes c)"
    using len eq by (intro nth_equalityI) (simp_all add: links_def)
  show "list_all (node_ok max_edges) (nodes c') = list_all (node_ok max_edges) (nodes c)"
    using len eq by (simp add: list_all_length node_ok_def)
qed

lemma same_topology_calc_ok:
  "same_topology c c' \<Longrightarrow> calc_ok max_edges c' = calc_ok max_edges c"
  using same_topology_nodes(3) [of c c' max_edges]
  by (simp add: calc_ok_def same_topology_def)

lemma same_topology_live_ids: "same_topology c c' \<Longrightarrow> live_ids c' = live_ids c"
  using same_topology_nodes(1) [of c c']
  by (simp add: live_ids_def same_topology_def take_map [symmetric])

lemma same_topology_distinct: "same_topology c c' \<Longrightarrow> distinct_ids c' = distinct_ids c"
  by (simp add: distinct_ids_def same_topology_live_ids)

lemma same_topology_index:
  "same_topology c c' \<Longrightarrow> get_index_by_id c' x = get_index_by_id c x"
  by (rule get_index_by_id_cong) (simp_all add: same_topology_def)

lemma same_topology_stored_edge:
  assumes "same_topology c c'"
  shows "stored_edge c' = stored_edge c"
proof (intro ext)
  fix u v w
  have "(\<exists>n\<in>set (take (node_count c) (nodes c')). P (node_id n) (links n))
          \<longleftrightarrow> (\<exists>n\<in>set (take (node_count c) (nodes c)). P (node_id n) (links n))" for P
  proof -
    have "map (\<lambda>n. (node_id n, links n)) (take (node_count c) (nodes c'))
            = map (\<lambda>n. (node_id n, links n)) (take (node_count c) (nodes c))"
      using assms by (intro nth_equalityI) (simp_all add: same_topology_def links_def)
    then have "set (map (\<lambda>n. (node_id n, links n)) (take (node_count c) (nodes c')))
            = set (map (\<lambda>n. (node_id n, links n)) (take (node_count c) (nodes c)))"
      by simp
    then have "(\<exists>p\<in>(\<lambda>n. (node_id n, links n)) ` set (take (node_count c) (nodes c')). P (fst p) (snd p))
            \<longleftrightarrow> (\<exists>p\<in>(\<lambda>n. (node_id n, links n)) ` set (take (node_count c) (nodes c)). P (fst p) (snd p))"
      by simp
    then show ?thesis by simp
  qed
  from this [of "\<lambda>a l. a = u \<and> (\<exists>cost. (v, cost) \<in> set l \<and> unat cost = w)"] assms
  show "stored_edge c' u v w = stored_edge c u v w"
    by (simp add: stored_edge_def same_topology_live_ids) (simp add: same_topology_def)
qed

lemma same_topology_path_cost:
  assumes "same_topology c c'"
  shows "path_cost c' = path_cost c"
proof (intro ext iffI)
  fix v k
  from assms have z: "node_id (nodes c' ! 0) = node_id (nodes c ! 0)"
    by (simp add: same_topology_def)
  note e = same_topology_stored_edge [OF assms]
  {
    assume "path_cost c' v k"
    then show "path_cost c v k"
    proof induction
      case path_start
      show ?case unfolding z by (rule path_cost.path_start)
    next
      case (path_step u k v w)
      then show ?case by (auto simp: e intro: path_cost.path_step)
    qed
  }
  {
    assume "path_cost c v k"
    then show "path_cost c' v k"
    proof induction
      case path_start
      show ?case unfolding z [symmetric] by (rule path_cost.path_start)
    next
      case (path_step u k v w)
      then show ?case by (auto simp: e [symmetric] intro: path_cost.path_step)
    qed
  }
qed

lemma same_topology_costs_bounded:
  assumes "same_topology c c'"
  shows "costs_bounded c' = costs_bounded c"
proof -
  have "map links (take (node_count c) (nodes c')) = map links (take (node_count c) (nodes c))"
    using same_topology_nodes(2) [OF assms] by (simp add: take_map [symmetric])
  then have "list_all (\<lambda>l. list_all P l) (map links (take (node_count c) (nodes c')))
      = list_all (\<lambda>l. list_all P l) (map links (take (node_count c) (nodes c)))" for P
    by simp
  then have "list_all (\<lambda>n. list_all P (links n)) (take (node_count c) (nodes c'))
      = list_all (\<lambda>n. list_all P (links n)) (take (node_count c) (nodes c))" for P
    by (simp add: list_all_iff)
  with assms show ?thesis
    by (simp add: costs_bounded_def same_topology_def)
qed

lemma costs_boundedD:
  assumes "costs_bounded c" "calc_ok max_edges c" "i < node_count c"
    "j < unat (edge_count (nodes c ! i))"
  shows "unat (edge_costs (nodes c ! i) ! j) * node_count c < unat (max_distance c)"
proof -
  note d = calc_okD [OF assms(2)]
  from assms(3) d(2) have "nodes c ! i \<in> set (take (node_count c) (nodes c))"
    by (auto simp: live_nodes_set)
  moreover from assms(3,4) d(2) d(3) [of i]
  have "(edges (nodes c ! i) ! j, edge_costs (nodes c ! i) ! j) \<in> set (links (nodes c ! i))"
    by (auto simp: in_links_iff)
  ultimately show ?thesis
    using assms(1) by (fastforce simp: costs_bounded_def list_all_iff)
qed

lemma relax_inv_start: "relax_inv c m c 0"
  by (simp add: relax_inv_def same_topology_refl)

lemma relax_inv_step:
  fixes c :: "('i::len, 'c::len) calculator"
  assumes inv: "relax_inv c m cur e"
    and e: "e < unat (edge_count (nodes c ! m))"
    and le: "node_count c \<le> length (nodes c)"
    and nowrap: "unat (distance (nodes c ! m)) + unat (edge_costs (nodes c ! m) ! e)
                   < 2 ^ LENGTH('c)"
  shows "relax_inv c m (relax_edge cur m e) (e + 1)"
proof -
  let ?v = "get_index_by_id c (edges (nodes c ! m) ! e)"
  let ?s = "distance (nodes c ! m) + edge_costs (nodes c ! m) ! e"
  let ?upd = "cur\<lparr> nodes := (nodes cur)
                [?v := (nodes cur ! ?v)\<lparr> distance := ?s, previous_node := node_id (nodes cur ! m) \<rparr>] \<rparr>"
  from inv have top: "same_topology c cur"
    and fl: "\<And>v. shortest_path_known (nodes cur ! v) = shortest_path_known (nodes c ! v)"
    and dm: "distance (nodes cur ! m) = distance (nodes c ! m)"
    and mono: "\<And>v. distance (nodes cur ! v) \<le> distance (nodes c ! v)"
    and chg: "\<And>v. distance (nodes cur ! v) \<noteq> distance (nodes c ! v) \<Longrightarrow>
          v < node_count c \<and> \<not> shortest_path_known (nodes c ! v) \<and>
          (\<exists>j<e. get_index_by_id c (edges (nodes c ! m) ! j) = v \<and>
                 distance (nodes cur ! v)
                   = distance (nodes c ! m) + edge_costs (nodes c ! m) ! j)"
    and rel: "\<And>j. j < e \<Longrightarrow> get_index_by_id c (edges (nodes c ! m) ! j) < node_count c \<Longrightarrow>
            \<not> shortest_path_known (nodes c ! get_index_by_id c (edges (nodes c ! m) ! j)) \<Longrightarrow>
            distance (nodes cur ! get_index_by_id c (edges (nodes c ! m) ! j))
              \<le> distance (nodes c ! m) + edge_costs (nodes c ! m) ! j"
    by (simp_all add: relax_inv_def)
  from top have tn: "node_count cur = node_count c" "length (nodes cur) = length (nodes c)"
    and te: "edges (nodes cur ! m) = edges (nodes c ! m)"
      "edge_costs (nodes cur ! m) = edge_costs (nodes c ! m)"
    by (simp_all add: same_topology_def)
  have ix: "get_index_by_id cur (edges (nodes c ! m) ! e) = ?v"
    using same_topology_index [OF top] by simp
  have ge: "distance (nodes c ! m) \<le> ?s"
    using nowrap by (simp add: word_le_nat_alt unat_add_lem [THEN iffD1])
  have e1: "e + 1 \<le> unat (edge_count (nodes c ! m))" using e by simp
  consider (same) "relax_edge cur m e = cur"
      "?v < node_count c \<and> \<not> shortest_path_known (nodes c ! ?v)
         \<longrightarrow> distance (nodes cur ! ?v) \<le> ?s"
    | (upd) "relax_edge cur m e = ?upd" "?v < node_count c"
      "\<not> shortest_path_known (nodes c ! ?v)" "?s < distance (nodes cur ! ?v)"
  proof -
    have vle: "?v \<le> node_count c" by (rule get_index_by_id_le)
    show ?thesis
    proof (cases "?v \<noteq> node_count c \<and> \<not> shortest_path_known (nodes c ! ?v) \<and>
                    ?s < distance (nodes cur ! ?v)")
      case True
      with vle have "?v < node_count c" by simp
      moreover from True have "relax_edge cur m e = ?upd"
        by (simp add: relax_edge_def Let_def ix tn fl dm te)
      ultimately show ?thesis using True that(2) by blast
    next
      case False
      then have "relax_edge cur m e = cur"
        by (auto simp: relax_edge_def Let_def ix tn fl dm te)
      moreover from False have "?v < node_count c \<and> \<not> shortest_path_known (nodes c ! ?v)
         \<longrightarrow> distance (nodes cur ! ?v) \<le> ?s"
        by auto
      ultimately show ?thesis using that(1) by blast
    qed
  qed
  then show ?thesis
  proof cases
    case same
    have "\<forall>j<e + 1. get_index_by_id c (edges (nodes c ! m) ! j) < node_count c \<and>
            \<not> shortest_path_known (nodes c ! get_index_by_id c (edges (nodes c ! m) ! j)) \<longrightarrow>
            distance (nodes cur ! get_index_by_id c (edges (nodes c ! m) ! j))
              \<le> distance (nodes c ! m) + edge_costs (nodes c ! m) ! j"
    proof (intro allI impI)
      fix j assume j: "j < e + 1"
        and a: "get_index_by_id c (edges (nodes c ! m) ! j) < node_count c \<and>
            \<not> shortest_path_known (nodes c ! get_index_by_id c (edges (nodes c ! m) ! j))"
      show "distance (nodes cur ! get_index_by_id c (edges (nodes c ! m) ! j))
              \<le> distance (nodes c ! m) + edge_costs (nodes c ! m) ! j"
      proof (cases "j = e")
        case True
        with same(2) a show ?thesis by simp
      next
        case False
        with j have "j < e" by simp
        with rel a show ?thesis by blast
      qed
    qed
    moreover have "\<forall>v. distance (nodes cur ! v) \<noteq> distance (nodes c ! v) \<longrightarrow>
          v < node_count c \<and> \<not> shortest_path_known (nodes c ! v) \<and>
          (\<exists>j<e + 1. get_index_by_id c (edges (nodes c ! m) ! j) = v \<and>
                 distance (nodes cur ! v)
                   = distance (nodes c ! m) + edge_costs (nodes c ! m) ! j)"
      using chg less_Suc_eq by fastforce
    ultimately show ?thesis
      unfolding same(1) relax_inv_def using top e1 fl dm mono by simp
  next
    case upd
    from upd(2) le tn have vlen: "?v < length (nodes cur)" by simp
    have vm: "?v \<noteq> m"
    proof
      assume "?v = m"
      with upd(4) dm have "?s < distance (nodes c ! m)" by simp
      with ge show False by simp
    qed
    have du: "distance (nodes ?upd ! x) = (if x = ?v then ?s else distance (nodes cur ! x))" for x
      using vlen by (cases "x = ?v") simp_all
    have fr: "node_id (nodes ?upd ! x) = node_id (nodes cur ! x) \<and>
        edges (nodes ?upd ! x) = edges (nodes cur ! x) \<and>
        edge_costs (nodes ?upd ! x) = edge_costs (nodes cur ! x) \<and>
        edge_count (nodes ?upd ! x) = edge_count (nodes cur ! x) \<and>
        shortest_path_known (nodes ?upd ! x) = shortest_path_known (nodes cur ! x)" for x
      by (simp add: nth_update_preserves
            [where g = "\<lambda>n. n\<lparr> distance := ?s, previous_node := node_id (nodes cur ! m) \<rparr>"])
    have top': "same_topology c ?upd"
      using top fr by (simp add: same_topology_def)
    have fl': "\<forall>x. shortest_path_known (nodes ?upd ! x) = shortest_path_known (nodes c ! x)"
      using fr fl by simp
    have dm': "distance (nodes ?upd ! m) = distance (nodes c ! m)"
      using du [of m] vm dm by simp
    have mono': "\<forall>x. distance (nodes ?upd ! x) \<le> distance (nodes c ! x)"
    proof
      fix x
      show "distance (nodes ?upd ! x) \<le> distance (nodes c ! x)"
      proof (cases "x = ?v")
        case True
        from upd(4) mono [of ?v] have "?s \<le> distance (nodes c ! ?v)" by simp
        with True du [of x] show ?thesis by simp
      next
        case False
        with du [of x] mono [of x] show ?thesis by simp
      qed
    qed
    have chg': "\<forall>x. distance (nodes ?upd ! x) \<noteq> distance (nodes c ! x) \<longrightarrow>
          x < node_count c \<and> \<not> shortest_path_known (nodes c ! x) \<and>
          (\<exists>j<e + 1. get_index_by_id c (edges (nodes c ! m) ! j) = x \<and>
                 distance (nodes ?upd ! x)
                   = distance (nodes c ! m) + edge_costs (nodes c ! m) ! j)"
    proof (intro allI impI)
      fix x assume ne: "distance (nodes ?upd ! x) \<noteq> distance (nodes c ! x)"
      show "x < node_count c \<and> \<not> shortest_path_known (nodes c ! x) \<and>
          (\<exists>j<e + 1. get_index_by_id c (edges (nodes c ! m) ! j) = x \<and>
                 distance (nodes ?upd ! x)
                   = distance (nodes c ! m) + edge_costs (nodes c ! m) ! j)"
      proof (cases "x = ?v")
        case True
        have "e < e + 1 \<and> get_index_by_id c (edges (nodes c ! m) ! e) = x \<and>
                 distance (nodes ?upd ! x) = distance (nodes c ! m) + edge_costs (nodes c ! m) ! e"
          using True du [of x] by simp
        then have "\<exists>j<e + 1. get_index_by_id c (edges (nodes c ! m) ! j) = x \<and>
                 distance (nodes ?upd ! x) = distance (nodes c ! m) + edge_costs (nodes c ! m) ! j"
          by blast
        with True upd(2,3) show ?thesis by simp
      next
        case False
        with ne du [of x] have "distance (nodes cur ! x) \<noteq> distance (nodes c ! x)" by simp
        from chg [OF this] obtain j where "x < node_count c" "\<not> shortest_path_known (nodes c ! x)"
          "j < e" "get_index_by_id c (edges (nodes c ! m) ! j) = x"
          "distance (nodes cur ! x) = distance (nodes c ! m) + edge_costs (nodes c ! m) ! j"
          by blast
        with False du [of x] show ?thesis
          by (intro conjI) (simp_all, intro exI [of _ j], simp)
      qed
    qed
    have rel': "\<forall>j<e + 1. get_index_by_id c (edges (nodes c ! m) ! j) < node_count c \<and>
            \<not> shortest_path_known (nodes c ! get_index_by_id c (edges (nodes c ! m) ! j)) \<longrightarrow>
            distance (nodes ?upd ! get_index_by_id c (edges (nodes c ! m) ! j))
              \<le> distance (nodes c ! m) + edge_costs (nodes c ! m) ! j"
    proof (intro allI impI)
      fix j assume j: "j < e + 1"
        and a: "get_index_by_id c (edges (nodes c ! m) ! j) < node_count c \<and>
            \<not> shortest_path_known (nodes c ! get_index_by_id c (edges (nodes c ! m) ! j))"
      let ?x = "get_index_by_id c (edges (nodes c ! m) ! j)"
      show "distance (nodes ?upd ! ?x) \<le> distance (nodes c ! m) + edge_costs (nodes c ! m) ! j"
      proof (cases "j = e")
        case True
        with du [of ?x] show ?thesis by simp
      next
        case False
        with j have "j < e" by simp
        with rel a have old: "distance (nodes cur ! ?x)
                \<le> distance (nodes c ! m) + edge_costs (nodes c ! m) ! j" by blast
        show ?thesis
        proof (cases "?x = ?v")
          case True
          with upd(4) have "?s \<le> distance (nodes cur ! ?x)" by simp
          with old True du [of ?x] show ?thesis by simp
        next
          case False
          with old du [of ?x] show ?thesis by simp
        qed
      qed
    qed
    show ?thesis
      unfolding upd(1) relax_inv_def
      using top' e1 fl' dm' mono' chg' rel' by blast
  qed
qed

lemma relax_edges_inv:
  fixes c :: "('i::len, 'c::len) calculator"
  assumes "relax_inv c m cur e"
    and "node_count c \<le> length (nodes c)"
    and "\<And>j. j < unat (edge_count (nodes c ! m)) \<Longrightarrow>
           unat (distance (nodes c ! m)) + unat (edge_costs (nodes c ! m) ! j) < 2 ^ LENGTH('c)"
  shows "relax_inv c m (relax_edges cur m e) (unat (edge_count (nodes c ! m)))"
  using assms
proof (induction cur m e rule: relax_edges.induct)
  case (1 cur m e)
  from "1.prems" have ec: "edge_count (nodes cur ! m) = edge_count (nodes c ! m)"
    and ele: "e \<le> unat (edge_count (nodes c ! m))"
    by (simp_all add: relax_inv_def same_topology_def)
  show ?case
  proof (cases "e < unat (edge_count (nodes c ! m))")
    case True
    then have eq: "relax_edges cur m e = relax_edges (relax_edge cur m e) m (e + 1)"
      using ec by (subst relax_edges.simps) simp
    have "relax_inv c m (relax_edge cur m e) (e + 1)"
      using "1.prems"(1) True "1.prems"(2) "1.prems"(3) [OF True] by (rule relax_inv_step)
    with "1.IH" True ec "1.prems"(2,3) show ?thesis unfolding eq by simp
  next
    case False
    with ele have "e = unat (edge_count (nodes c ! m))" by simp
    moreover from False ec have "relax_edges cur m e = cur"
      by (subst relax_edges.simps) simp
    ultimately show ?thesis using "1.prems"(1) by simp
  qed
qed

lemma loop_invD:
  assumes "loop_inv c k"
  shows "1 \<le> k" "k \<le> node_count c"
    "shortest_path_known (nodes c ! 0)" "distance (nodes c ! 0) = 0"
    "\<And>i. 1 \<le> i \<Longrightarrow> i < node_count c \<Longrightarrow> distance (nodes c ! i) \<noteq> max_distance c \<Longrightarrow>
          path_cost c (node_id (nodes c ! i)) (unat (distance (nodes c ! i)))"
    "\<And>i. 1 \<le> i \<Longrightarrow> i < node_count c \<Longrightarrow> shortest_path_known (nodes c ! i) \<Longrightarrow>
          distance (nodes c ! i) \<noteq> max_distance c \<and>
          (\<forall>k'. path_cost c (node_id (nodes c ! i)) k' \<longrightarrow> unat (distance (nodes c ! i)) \<le> k') \<and>
          unat (distance (nodes c ! i)) * node_count c
            \<le> (node_count c - 1) * (unat (max_distance c) - 1)"
    "\<And>u v w. u < node_count c \<Longrightarrow> v < node_count c \<Longrightarrow>
          shortest_path_known (nodes c ! u) \<Longrightarrow> \<not> shortest_path_known (nodes c ! v) \<Longrightarrow>
          stored_edge c (node_id (nodes c ! u)) (node_id (nodes c ! v)) w \<Longrightarrow>
          unat (distance (nodes c ! v)) \<le> unat (distance (nodes c ! u)) + w"
    "\<And>i. 1 \<le> i \<Longrightarrow> i < node_count c \<Longrightarrow> \<not> shortest_path_known (nodes c ! i) \<Longrightarrow>
          distance (nodes c ! i) \<noteq> max_distance c \<Longrightarrow>
          unat (distance (nodes c ! i)) * node_count c \<le> k * (unat (max_distance c) - 1)"
  using assms unfolding loop_inv_def by blast+

lemma pick_optimal:
  assumes ok: "calc_ok max_edges c" and dist: "distinct_ids c" and inv: "loop_inv c k"
    and m: "1 \<le> m" "m < node_count c" "\<not> shortest_path_known (nodes c ! m)"
    and least: "\<And>v. 1 \<le> v \<Longrightarrow> v < node_count c \<Longrightarrow> \<not> shortest_path_known (nodes c ! v)
                  \<Longrightarrow> distance (nodes c ! m) \<le> distance (nodes c ! v)"
    and pc: "path_cost c x p"
  shows "\<forall>i<node_count c. node_id (nodes c ! i) = x \<longrightarrow>
           (shortest_path_known (nodes c ! i) \<longrightarrow> unat (distance (nodes c ! i)) \<le> p) \<and>
           (\<not> shortest_path_known (nodes c ! i) \<longrightarrow> unat (distance (nodes c ! m)) \<le> p)"
  using pc
proof induction
  case path_start
  note d = calc_okD [OF ok]
  show ?case
  proof (intro allI impI)
    fix i assume "i < node_count c" "node_id (nodes c ! i) = node_id (nodes c ! 0)"
    with distinct_idsD [OF dist d(2), of i 0] d(1) have "i = 0" by simp
    with loop_invD(3,4) [OF inv]
    show "(shortest_path_known (nodes c ! i) \<longrightarrow> unat (distance (nodes c ! i)) \<le> 0) \<and>
           (\<not> shortest_path_known (nodes c ! i) \<longrightarrow> unat (distance (nodes c ! m)) \<le> 0)"
      by simp
  qed
next
  case (path_step u p v w)
  note d = calc_okD [OF ok]
  from path_step.hyps(2) stored_edge_iff [OF ok, of u v w]
  obtain iu where iu: "iu < node_count c" "node_id (nodes c ! iu) = u" by blast
  have pv: "path_cost c v (p + w)"
    using path_step.hyps(1,2) by (rule path_cost.path_step)
  show ?case
  proof (intro allI impI)
    fix i assume i: "i < node_count c" "node_id (nodes c ! i) = v"
    show "(shortest_path_known (nodes c ! i) \<longrightarrow> unat (distance (nodes c ! i)) \<le> p + w) \<and>
           (\<not> shortest_path_known (nodes c ! i) \<longrightarrow> unat (distance (nodes c ! m)) \<le> p + w)"
    proof (cases "shortest_path_known (nodes c ! i)")
      case True
      show ?thesis
      proof (cases "i = 0")
        case True
        with loop_invD(3,4) [OF inv] show ?thesis by simp
      next
        case False
        then have "1 \<le> i" by simp
        from loop_invD(6) [OF inv this i(1) True] pv i(2) True show ?thesis by simp
      qed
    next
      case unknown: False
      with loop_invD(3) [OF inv] have i1: "1 \<le> i" by (cases "i = 0") auto
      have "unat (distance (nodes c ! m)) \<le> p + w"
      proof (cases "shortest_path_known (nodes c ! iu)")
        case True
        from path_step.hyps(2) iu(2) i(2)
        have "stored_edge c (node_id (nodes c ! iu)) (node_id (nodes c ! i)) w" by simp
        from loop_invD(7) [OF inv iu(1) i(1) True unknown this]
        have "unat (distance (nodes c ! i)) \<le> unat (distance (nodes c ! iu)) + w" .
        moreover from path_step.IH iu True have "unat (distance (nodes c ! iu)) \<le> p" by blast
        moreover from least [OF i1 i(1) unknown]
        have "unat (distance (nodes c ! m)) \<le> unat (distance (nodes c ! i))"
          by (simp add: word_le_nat_alt)
        ultimately show ?thesis by linarith
      next
        case False
        with path_step.IH iu have "unat (distance (nodes c ! m)) \<le> p" by blast
        then show ?thesis by simp
      qed
      with unknown show ?thesis by simp
    qed
  qed
qed

lemma no_wrap_bound:
  fixes d w n k M :: nat
  assumes "d * n \<le> k * (M - 1)" "w * n < M" "k < n"
  shows "(d + w) * n \<le> (k + 1) * (M - 1)" "d + w \<le> M - 1"
proof -
  from assms(2) have "w * n \<le> M - 1" by simp
  with assms(1) have "d * n + w * n \<le> k * (M - 1) + (M - 1)" by linarith
  then show a: "(d + w) * n \<le> (k + 1) * (M - 1)" by (simp add: add_mult_distrib)
  from assms(3) have "(k + 1) * (M - 1) \<le> n * (M - 1)" by (intro mult_right_mono) simp_all
  with a have "(d + w) * n \<le> n * (M - 1)" by (rule order_trans)
  then have "(d + w) * n \<le> (M - 1) * n" by (simp only: mult.commute)
  moreover from assms(3) have "0 < n" by simp
  ultimately show "d + w \<le> M - 1" by (simp only: mult_le_cancel2)
qed

lemma unat_max_word: "unat (- 1 :: 'a::len word) = 2 ^ LENGTH('a) - 1"
  by (simp add: unsigned_minus_1_eq_mask mask_eq_exp_minus_1)

lemma finalize_inv:
  fixes c :: "('i::len, 'c::len) calculator"
  assumes ok: "calc_ok max_edges c" and dist: "distinct_ids c"
    and mx: "max_distance c = - 1" and cb: "costs_bounded c"
    and inv: "loop_inv c k" and kn: "k < node_count c"
    and r: "find_min c 1 (max_distance c, 0) = (md, m)" and ne: "md \<noteq> max_distance c"
  shows "loop_inv (finalize c m) (k + 1)"
proof -
  let ?n = "node_count c"
  let ?M = "unat (max_distance c)"
  let ?ec = "unat (edge_count (nodes c ! m))"
  let ?c1 = "relax_edges c m 0"
  let ?c2 = "finalize c m"
  let ?ix = "\<lambda>j. get_index_by_id c (edges (nodes c ! m) ! j)"
  let ?sum = "\<lambda>j. distance (nodes c ! m) + edge_costs (nodes c ! m) ! j"
  note d = calc_okD [OF ok]
  note f = find_min_found [OF r ne]
  from f have m1: "1 \<le> m" and mn: "m < ?n" and mu: "\<not> shortest_path_known (nodes c ! m)"
    and dm_ne: "distance (nodes c ! m) \<noteq> max_distance c"
    by auto
  have least: "\<And>v. 1 \<le> v \<Longrightarrow> v < ?n \<Longrightarrow> \<not> shortest_path_known (nodes c ! v)
                  \<Longrightarrow> distance (nodes c ! m) \<le> distance (nodes c ! v)"
    using f(4,6) by simp
  note i = loop_invD [OF inv]
  have M: "?M = 2 ^ LENGTH('c) - 1" using mx by (simp add: unat_max_word)
  have "1 \<le> LENGTH('c)" using len_gt_0 [where 'a = 'c] by linarith
  then have "(2::nat) ^ 1 \<le> 2 ^ LENGTH('c)" by (intro power_increasing) simp_all
  then have two: "(2::nat) \<le> 2 ^ LENGTH('c)" by simp
  then have Mpos: "0 < ?M" using M by linarith
  have bm: "unat (distance (nodes c ! m)) * ?n \<le> k * (?M - 1)"
    using i(8) [OF m1 mn mu dm_ne] .
  have bw: "unat (edge_costs (nodes c ! m) ! j) * ?n < ?M" if "j < ?ec" for j
    using costs_boundedD [OF cb ok mn that] .
  have b1: "(unat (distance (nodes c ! m)) + unat (edge_costs (nodes c ! m) ! j)) * ?n
              \<le> (k + 1) * (?M - 1)"
    and b2: "unat (distance (nodes c ! m)) + unat (edge_costs (nodes c ! m) ! j) \<le> ?M - 1"
    if "j < ?ec" for j
    using no_wrap_bound [OF bm bw [OF that] kn] by simp_all
  have nowrap: "unat (distance (nodes c ! m)) + unat (edge_costs (nodes c ! m) ! j)
                  < 2 ^ LENGTH('c)" if "j < ?ec" for j
    using b2 [OF that] M two by linarith
  have usum: "unat (?sum j) = unat (distance (nodes c ! m)) + unat (edge_costs (nodes c ! m) ! j)"
    if "j < ?ec" for j
    using nowrap [OF that] by (simp add: unat_add_lem [THEN iffD1])
  have sum_ne: "?sum j \<noteq> max_distance c" if "j < ?ec" for j
  proof
    assume "?sum j = max_distance c"
    then have "unat (?sum j) = ?M" by simp
    with usum [OF that] b2 [OF that] Mpos show False by linarith
  qed
  have R: "relax_inv c m ?c1 ?ec"
    using relax_inv_start d(2) nowrap by (rule relax_edges_inv)
  then have top1: "same_topology c ?c1"
    and dm1: "distance (nodes ?c1 ! m) = distance (nodes c ! m)"
    and mono1: "\<And>v. distance (nodes ?c1 ! v) \<le> distance (nodes c ! v)"
    and chg1: "\<And>v. distance (nodes ?c1 ! v) \<noteq> distance (nodes c ! v) \<Longrightarrow>
          v < ?n \<and> \<not> shortest_path_known (nodes c ! v) \<and>
          (\<exists>j<?ec. ?ix j = v \<and> distance (nodes ?c1 ! v) = ?sum j)"
    and rel1: "\<And>j. j < ?ec \<Longrightarrow> ?ix j < ?n \<Longrightarrow> \<not> shortest_path_known (nodes c ! ?ix j) \<Longrightarrow>
            distance (nodes ?c1 ! ?ix j) \<le> ?sum j"
    by (simp_all add: relax_inv_def)
  note fr = finalize_frame [of c m]
  from fr have d2: "\<And>x. distance (nodes ?c2 ! x) = distance (nodes ?c1 ! x)"
    and n2: "node_count ?c2 = ?n" and M2: "max_distance ?c2 = max_distance c"
    and id2: "\<And>x. node_id (nodes ?c2 ! x) = node_id (nodes c ! x)"
    by simp_all
  from mn d(2) have "m < length (nodes c)" by simp
  note kn2 = finalize_known [OF this]
  have top2: "same_topology c ?c2" using fr by (simp add: same_topology_def)
  note pc2 = same_topology_path_cost [OF top2]
  note se2 = same_topology_stored_edge [OF top2]
  have pm: "path_cost c (node_id (nodes c ! m)) (unat (distance (nodes c ! m)))"
    using i(5) [OF m1 mn dm_ne] .
  (* a changed distance is the cost of a path through m *)
  have changed: "path_cost c (node_id (nodes c ! x)) (unat (distance (nodes ?c1 ! x))) \<and>
                 unat (distance (nodes ?c1 ! x)) * ?n \<le> (k + 1) * (?M - 1)"
    if "distance (nodes ?c1 ! x) \<noteq> distance (nodes c ! x)" for x
  proof -
    from chg1 [OF that] obtain j where x: "x < ?n" and j: "j < ?ec" "?ix j = x"
      "distance (nodes ?c1 ! x) = ?sum j" by blast
    from j(2) x have "node_id (nodes c ! x) = edges (nodes c ! m) ! j"
      using get_index_by_id_found [of c "edges (nodes c ! m) ! j"] by simp
    with mn j(1) x
    have "stored_edge c (node_id (nodes c ! m)) (node_id (nodes c ! x))
            (unat (edge_costs (nodes c ! m) ! j))"
      unfolding stored_edge_iff [OF ok] by (intro conjI exI [of _ m] exI [of _ j] exI [of _ x]) simp_all
    with pm have "path_cost c (node_id (nodes c ! x))
            (unat (distance (nodes c ! m)) + unat (edge_costs (nodes c ! m) ! j))"
      by (rule path_cost.path_step)
    with j(3) usum [OF j(1)] b1 [OF j(1)] show ?thesis by simp
  qed
  have G2: "shortest_path_known (nodes ?c2 ! 0) \<and> distance (nodes ?c2 ! 0) = 0"
  proof -
    have "distance (nodes ?c1 ! 0) = distance (nodes c ! 0)"
      using chg1 [of 0] i(3) by blast
    with i(3,4) d2 kn2 show ?thesis by simp
  qed
  have G3: "\<forall>x. 1 \<le> x \<and> x < node_count ?c2 \<and> distance (nodes ?c2 ! x) \<noteq> max_distance ?c2 \<longrightarrow>
          path_cost ?c2 (node_id (nodes ?c2 ! x)) (unat (distance (nodes ?c2 ! x)))"
  proof (intro allI impI)
    fix x assume x: "1 \<le> x \<and> x < node_count ?c2 \<and> distance (nodes ?c2 ! x) \<noteq> max_distance ?c2"
    show "path_cost ?c2 (node_id (nodes ?c2 ! x)) (unat (distance (nodes ?c2 ! x)))"
    proof (cases "distance (nodes ?c1 ! x) = distance (nodes c ! x)")
      case True
      with x i(5) [of x] show ?thesis by (simp add: pc2 d2 n2 M2 id2)
    next
      case False
      from changed [OF this] show ?thesis by (simp add: pc2 d2 id2)
    qed
  qed
  have G4: "\<forall>x. 1 \<le> x \<and> x < node_count ?c2 \<and> shortest_path_known (nodes ?c2 ! x) \<longrightarrow>
          distance (nodes ?c2 ! x) \<noteq> max_distance ?c2 \<and>
          (\<forall>k'. path_cost ?c2 (node_id (nodes ?c2 ! x)) k' \<longrightarrow> unat (distance (nodes ?c2 ! x)) \<le> k') \<and>
          unat (distance (nodes ?c2 ! x)) * node_count ?c2
            \<le> (node_count ?c2 - 1) * (unat (max_distance ?c2) - 1)"
  proof (intro allI impI)
    fix x assume x: "1 \<le> x \<and> x < node_count ?c2 \<and> shortest_path_known (nodes ?c2 ! x)"
    show "distance (nodes ?c2 ! x) \<noteq> max_distance ?c2 \<and>
          (\<forall>k'. path_cost ?c2 (node_id (nodes ?c2 ! x)) k' \<longrightarrow> unat (distance (nodes ?c2 ! x)) \<le> k') \<and>
          unat (distance (nodes ?c2 ! x)) * node_count ?c2
            \<le> (node_count ?c2 - 1) * (unat (max_distance ?c2) - 1)"
    proof (cases "x = m")
      case True
      have opt: "\<forall>k'. path_cost c (node_id (nodes c ! m)) k' \<longrightarrow> unat (distance (nodes c ! m)) \<le> k'"
      proof (intro allI impI)
        fix k' assume "path_cost c (node_id (nodes c ! m)) k'"
        from pick_optimal [OF ok dist inv m1 mn mu least this] mn mu
        show "unat (distance (nodes c ! m)) \<le> k'" by blast
      qed
      from kn have "k \<le> ?n - 1" by simp
      then have "k * (?M - 1) \<le> (?n - 1) * (?M - 1)" by (rule mult_right_mono) simp
      with bm have "unat (distance (nodes c ! m)) * ?n \<le> (?n - 1) * (?M - 1)"
        by (rule order_trans)
      with True opt dm_ne show ?thesis by (simp add: pc2 d2 n2 M2 id2 dm1)
    next
      case False
      with x kn2 have known: "shortest_path_known (nodes c ! x)" by simp
      then have "distance (nodes ?c1 ! x) = distance (nodes c ! x)"
        using chg1 [of x] by blast
      with x i(6) [of x] known show ?thesis by (simp add: pc2 d2 n2 M2 id2)
    qed
  qed
  have G5: "\<forall>u v w. u < node_count ?c2 \<and> v < node_count ?c2 \<and>
          shortest_path_known (nodes ?c2 ! u) \<and> \<not> shortest_path_known (nodes ?c2 ! v) \<and>
          stored_edge ?c2 (node_id (nodes ?c2 ! u)) (node_id (nodes ?c2 ! v)) w \<longrightarrow>
          unat (distance (nodes ?c2 ! v)) \<le> unat (distance (nodes ?c2 ! u)) + w"
  proof (intro allI impI)
    fix u v w
    assume a: "u < node_count ?c2 \<and> v < node_count ?c2 \<and>
          shortest_path_known (nodes ?c2 ! u) \<and> \<not> shortest_path_known (nodes ?c2 ! v) \<and>
          stored_edge ?c2 (node_id (nodes ?c2 ! u)) (node_id (nodes ?c2 ! v)) w"
    then have u: "u < ?n" and v: "v < ?n" and vm: "v \<noteq> m"
      and vu: "\<not> shortest_path_known (nodes c ! v)"
      and se: "stored_edge c (node_id (nodes c ! u)) (node_id (nodes c ! v)) w"
      using kn2 by (simp_all add: n2 se2 id2)
    have le_old: "unat (distance (nodes ?c1 ! v)) \<le> unat (distance (nodes c ! v))"
      using mono1 [of v] by (simp add: word_le_nat_alt)
    show "unat (distance (nodes ?c2 ! v)) \<le> unat (distance (nodes ?c2 ! u)) + w"
    proof (cases "u = m")
      case True
      from se True stored_edge_iff [OF ok, of "node_id (nodes c ! m)" "node_id (nodes c ! v)" w]
      obtain iu j where iu: "iu < ?n" "node_id (nodes c ! iu) = node_id (nodes c ! m)"
        and j: "j < unat (edge_count (nodes c ! iu))" "edges (nodes c ! iu) ! j = node_id (nodes c ! v)"
          "unat (edge_costs (nodes c ! iu) ! j) = w"
        by blast
      from distinct_idsD [OF dist d(2) iu(1) mn iu(2)] have "iu = m" .
      with j have j': "j < ?ec" "edges (nodes c ! m) ! j = node_id (nodes c ! v)"
        "unat (edge_costs (nodes c ! m) ! j) = w" by simp_all
      have "?ix j = v"
        using get_index_by_id_distinct [OF dist d(2) v] j'(2) by simp
      with rel1 [OF j'(1)] v vu have "distance (nodes ?c1 ! v) \<le> ?sum j" by simp
      then have "unat (distance (nodes ?c1 ! v)) \<le> unat (?sum j)"
        by (simp add: word_le_nat_alt)
      with usum [OF j'(1)] j'(3) True dm1 show ?thesis by (simp add: d2)
    next
      case False
      with a kn2 have known: "shortest_path_known (nodes c ! u)" by simp
      then have "distance (nodes ?c1 ! u) = distance (nodes c ! u)"
        using chg1 [of u] by blast
      with i(7) [OF u v known vu se] le_old show ?thesis by (simp add: d2)
    qed
  qed
  have G6: "\<forall>x. 1 \<le> x \<and> x < node_count ?c2 \<and> \<not> shortest_path_known (nodes ?c2 ! x) \<and>
          distance (nodes ?c2 ! x) \<noteq> max_distance ?c2 \<longrightarrow>
          unat (distance (nodes ?c2 ! x)) * node_count ?c2 \<le> (k + 1) * (unat (max_distance ?c2) - 1)"
  proof (intro allI impI)
    fix x assume x: "1 \<le> x \<and> x < node_count ?c2 \<and> \<not> shortest_path_known (nodes ?c2 ! x) \<and>
          distance (nodes ?c2 ! x) \<noteq> max_distance ?c2"
    show "unat (distance (nodes ?c2 ! x)) * node_count ?c2 \<le> (k + 1) * (unat (max_distance ?c2) - 1)"
    proof (cases "distance (nodes ?c1 ! x) = distance (nodes c ! x)")
      case True
      from x kn2 have "\<not> shortest_path_known (nodes c ! x)" by simp
      with x True i(8) [of x]
      have "unat (distance (nodes c ! x)) * ?n \<le> k * (?M - 1)" by (simp add: d2 n2 M2)
      also have "\<dots> \<le> (k + 1) * (?M - 1)" by simp
      finally show ?thesis using True by (simp add: d2 n2 M2)
    next
      case False
      from changed [OF this] show ?thesis by (simp add: d2 n2 M2)
    qed
  qed
  from kn have G1: "1 \<le> k + 1 \<and> k + 1 \<le> node_count ?c2" by (simp add: n2)
  show ?thesis
    unfolding loop_inv_def using G1 G2 G3 G4 G5 G6 by blast
qed

lemma setup_nodes_topology: "same_topology c (setup_nodes c i)"
proof (induction c i rule: setup_nodes.induct)
  case (1 c i)
  show ?case
  proof (cases "i < node_count c")
    case False
    then show ?thesis by (subst setup_nodes.simps) (simp add: same_topology_refl)
  next
    case True
    let ?g = "\<lambda>n. setup_edges (node_id (nodes c ! 0))
                (n\<lparr> shortest_path_known := False, distance := max_distance c \<rparr>) 0"
    let ?c' = "c\<lparr> nodes := (nodes c)[i := ?g (nodes c ! i)] \<rparr>"
    have eq: "setup_nodes c i = setup_nodes ?c' (i + 1)"
      using True by (subst setup_nodes.simps) simp
    have "same_topology c ?c'"
      unfolding same_topology_def
      by (simp add: nth_update_preserves [where g = ?g] setup_edges_frame)
    moreover have "same_topology ?c' (setup_nodes ?c' (i + 1))"
      using "1.IH" [OF True] .
    ultimately show ?thesis unfolding eq by (rule same_topology_trans)
  qed
qed

lemma setup_phase_topology: "same_topology c (setup_phase c)"
proof -
  let ?c0 = "c\<lparr> nodes := (nodes c)[0 := (nodes c ! 0)\<lparr> shortest_path_known := True \<rparr>] \<rparr>"
  have "same_topology c ?c0"
    unfolding same_topology_def
    by (simp add: nth_update_preserves [where g = "\<lambda>n. n\<lparr> shortest_path_known := True \<rparr>"])
  moreover have "same_topology ?c0 (setup_nodes ?c0 1)" by (rule setup_nodes_topology)
  ultimately show ?thesis unfolding setup_phase_def by (rule same_topology_trans)
qed

lemma finalize_topology: "same_topology c (finalize c m)"
  using finalize_frame [of c m] by (simp add: same_topology_def)

lemma loop_from_topology: "same_topology c (loop_from c k)"
  using loop_from_shape [of c k] by (simp add: same_topology_def)

text \<open>The conditions on the topology, which setup and loop keep.\<close>

lemma topology_conditions_kept:
  assumes "same_topology c c'"
  shows "calc_ok max_edges c' = calc_ok max_edges c" "distinct_ids c' = distinct_ids c"
    "costs_bounded c' = costs_bounded c" "max_distance c' = max_distance c"
proof -
  show "calc_ok max_edges c' = calc_ok max_edges c" using assms by (rule same_topology_calc_ok)
  show "distinct_ids c' = distinct_ids c" using assms by (rule same_topology_distinct)
  show "costs_bounded c' = costs_bounded c" using assms by (rule same_topology_costs_bounded)
  show "max_distance c' = max_distance c" using assms by (simp add: same_topology_def)
qed

lemma loop_from_inv:
  assumes "calc_ok max_edges c" "distinct_ids c" "max_distance c = - 1" "costs_bounded c"
    and "loop_inv c k"
  shows "\<exists>k'. loop_inv (loop_from c k) k'"
  using assms
proof (induction c k rule: loop_from.induct)
  case (1 c k)
  obtain md mn where r: "find_min c 1 (max_distance c, 0) = (md, mn)" by force
  consider "\<not> k < node_count c" | "k < node_count c" "md = max_distance c"
    | "k < node_count c" "md \<noteq> max_distance c" by blast
  then show ?case
  proof cases
    case 1
    with "1.prems"(5) show ?thesis by (auto simp: loop_from_done)
  next
    case 2
    with r "1.prems"(5) show ?thesis by (auto simp: loop_from_stop)
  next
    case 3
    note eq = loop_from_step [OF 3(1) r 3(2)]
    note t = topology_conditions_kept [OF finalize_topology [of c mn]]
    have "loop_inv (finalize c mn) (k + 1)"
      using "1.prems" 3(1) r 3(2) by (rule finalize_inv)
    with "1.IH" [OF 3(1) r [symmetric] 3(2)] "1.prems"(1-4) t(1) [of max_edges] t(2-4)
    show ?thesis unfolding eq by simp
  qed
qed

lemma setup_edges_result:
  assumes "distance n = mx"
  shows "(setup_edges s n j = n \<and>
          (\<forall>i. j \<le> i \<and> i < unat (edge_count n) \<longrightarrow> \<not> (edges n ! i = s \<and> edge_costs n ! i < mx))) \<or>
         (\<exists>i. j \<le> i \<and> i < unat (edge_count n) \<and> edges n ! i = s \<and> edge_costs n ! i < mx \<and>
              setup_edges s n j = n\<lparr> distance := edge_costs n ! i, previous_node := s \<rparr>)"
  using assms
proof (induction s n j rule: setup_edges.induct)
  case (1 s n j)
  show ?case
  proof (cases "j < unat (edge_count n)")
    case False
    then show ?thesis by (subst (1 2) setup_edges.simps) auto
  next
    case lt: True
    show ?thesis
    proof (cases "edges n ! j = s \<and> edge_costs n ! j < mx")
      case True
      with lt "1.prems"
      have "setup_edges s n j = n\<lparr> distance := edge_costs n ! j, previous_node := s \<rparr>"
        by (subst setup_edges.simps) simp
      with lt True show ?thesis by blast
    next
      case False
      with lt "1.prems" have eq: "setup_edges s n j = setup_edges s n (j + 1)"
        by (subst setup_edges.simps) auto
      from False "1.prems" have "\<not> (edges n ! j = s \<and> edge_costs n ! j < distance n)" by simp
      from "1.IH" [OF lt this "1.prems"]
      show ?thesis
      proof
        assume a: "setup_edges s n (j + 1) = n \<and>
          (\<forall>i. j + 1 \<le> i \<and> i < unat (edge_count n) \<longrightarrow> \<not> (edges n ! i = s \<and> edge_costs n ! i < mx))"
        have "\<forall>i. j \<le> i \<and> i < unat (edge_count n) \<longrightarrow> \<not> (edges n ! i = s \<and> edge_costs n ! i < mx)"
        proof (intro allI impI)
          fix i assume i: "j \<le> i \<and> i < unat (edge_count n)"
          show "\<not> (edges n ! i = s \<and> edge_costs n ! i < mx)"
          proof (cases "i = j")
            case True
            with False show ?thesis by simp
          next
            case False
            with i have "j + 1 \<le> i" by simp
            with a i show ?thesis by blast
          qed
        qed
        with a eq show ?thesis by simp
      next
        assume "\<exists>i. j + 1 \<le> i \<and> i < unat (edge_count n) \<and> edges n ! i = s \<and> edge_costs n ! i < mx \<and>
              setup_edges s n (j + 1) = n\<lparr> distance := edge_costs n ! i, previous_node := s \<rparr>"
        then obtain i where "j + 1 \<le> i" "i < unat (edge_count n)" "edges n ! i = s"
          "edge_costs n ! i < mx"
          "setup_edges s n (j + 1) = n\<lparr> distance := edge_costs n ! i, previous_node := s \<rparr>"
          by blast
        then have "j \<le> i \<and> i < unat (edge_count n) \<and> edges n ! i = s \<and> edge_costs n ! i < mx \<and>
              setup_edges s n j = n\<lparr> distance := edge_costs n ! i, previous_node := s \<rparr>"
          using eq by simp
        then show ?thesis by blast
      qed
    qed
  qed
qed

lemma list_all_live_tail:
  assumes "n \<le> length xs"
  shows "list_all P (drop 1 (take n xs)) \<longleftrightarrow> (\<forall>i. 1 \<le> i \<and> i < n \<longrightarrow> P (xs ! i))"
proof
  assume a: "list_all P (drop 1 (take n xs))"
  show "\<forall>i. 1 \<le> i \<and> i < n \<longrightarrow> P (xs ! i)"
  proof (intro allI impI)
    fix i assume i: "1 \<le> i \<and> i < n"
    then obtain i' where i': "i = Suc i'" by (cases i) auto
    with i assms have "i' < length (drop 1 (take n xs))" by simp
    with a have "P (drop 1 (take n xs) ! i')" by (simp add: list_all_length)
    with i i' assms show "P (xs ! i)" by simp
  qed
next
  assume a: "\<forall>i. 1 \<le> i \<and> i < n \<longrightarrow> P (xs ! i)"
  show "list_all P (drop 1 (take n xs))"
    unfolding list_all_length
  proof (intro allI impI)
    fix i assume "i < length (drop 1 (take n xs))"
    with assms have "1 \<le> i + 1 \<and> i + 1 < n" by simp
    with a have "P (xs ! (i + 1))" by blast
    with assms \<open>1 \<le> i + 1 \<and> i + 1 < n\<close> show "P (drop 1 (take n xs) ! i)" by simp
  qed
qed

lemma short_list_unique:
  "length xs \<le> 1 \<Longrightarrow> a \<in> set xs \<Longrightarrow> b \<in> set xs \<Longrightarrow> a = b"
  by (cases xs) auto

lemma setup_phase_inv:
  fixes c :: "('i::len, 'c::len) calculator"
  assumes ok: "calc_ok max_edges c" and dist: "distinct_ids c"
    and mx: "max_distance c = - 1" and z: "distance (nodes c ! 0) = 0"
    and sym: "source_links_symmetric c" and cb: "costs_bounded c"
  shows "loop_inv (setup_phase c) 1"
proof -
  let ?n = "node_count c"
  let ?M = "unat (max_distance c)"
  let ?c' = "setup_phase c"
  let ?src = "node_id (nodes c ! 0)"
  let ?reset = "\<lambda>i. (nodes c ! i)\<lparr> shortest_path_known := False, distance := max_distance c \<rparr>"
  note d = calc_okD [OF ok]
  note top = setup_phase_topology [of c]
  note pc' = same_topology_path_cost [OF top]
  note se' = same_topology_stored_edge [OF top]
  from top have n': "node_count ?c' = ?n" and M': "max_distance ?c' = max_distance c"
    and id': "\<And>x. node_id (nodes ?c' ! x) = node_id (nodes c ! x)"
    by (simp_all add: same_topology_def)
  from d(1,2) have len0: "0 < length (nodes c)" by linarith
  have node0: "nodes ?c' ! 0 = (nodes c ! 0)\<lparr> shortest_path_known := True \<rparr>"
    using setup_phase_nth [OF d(1,2) len0] by simp
  have nodei: "nodes ?c' ! i = setup_edges ?src (?reset i) 0" if "1 \<le> i" "i < ?n" for i
    using setup_phase_nth [OF d(1,2), of i] that d(2) by simp
  have unknown: "\<not> shortest_path_known (nodes ?c' ! i)" if "1 \<le> i" "i < ?n" for i
    using nodei [OF that] setup_edges_frame [of ?src "?reset i" 0] by simp
  have oki: "node_ok max_edges (nodes c ! i)" if "i < ?n" for i
    using d(2,3) that by simp
  have symi: "set (costs_to (nodes c ! i) ?src) = set (costs_to (nodes c ! 0) (node_id (nodes c ! i)))"
    and once: "length (costs_to (nodes c ! i) ?src) \<le> 1" if "1 \<le> i" "i < ?n" for i
    using sym that unfolding source_links_symmetric_def list_all_live_tail [OF d(2)] by blast+
  have small: "w < max_distance c \<and> unat w * ?n \<le> ?M - 1"
    if "i < ?n" "j < unat (edge_count (nodes c ! i))" "edge_costs (nodes c ! i) ! j = w" for i j w
  proof -
    from costs_boundedD [OF cb ok that(1,2)] that(3) have b: "unat w * ?n < ?M" by simp
    from that(1) have "0 < ?n" by simp
    then have "unat w \<le> unat w * ?n" by simp
    with b have "unat w < ?M" by linarith
    then have "w < max_distance c" by (simp add: word_less_nat_alt)
    with b show ?thesis by simp
  qed
  (* what setup leaves in a node other than the source *)
  have hit: "\<exists>j<unat (edge_count (nodes c ! i)).
               edges (nodes c ! i) ! j = ?src \<and> edge_costs (nodes c ! i) ! j = distance (nodes ?c' ! i)"
    if "1 \<le> i" "i < ?n" "distance (nodes ?c' ! i) \<noteq> max_distance c" for i
  proof -
    from setup_edges_result [of "?reset i" "max_distance c" ?src 0]
    have "setup_edges ?src (?reset i) 0 = ?reset i \<or>
         (\<exists>j. j < unat (edge_count (nodes c ! i)) \<and> edges (nodes c ! i) ! j = ?src \<and>
              setup_edges ?src (?reset i) 0
                = (?reset i)\<lparr> distance := edge_costs (nodes c ! i) ! j, previous_node := ?src \<rparr>)"
      by auto
    with that(3) nodei [OF that(1,2)] show ?thesis by auto
  qed
  have only: "distance (nodes ?c' ! i) = w"
    if "1 \<le> i" "i < ?n" "w \<in> set (costs_to (nodes c ! i) ?src)" for i w
  proof -
    from that(3) in_costs_to_iff [OF oki [OF that(2)]]
    obtain j where j: "j < unat (edge_count (nodes c ! i))" "edges (nodes c ! i) ! j = ?src"
      "edge_costs (nodes c ! i) ! j = w" by blast
    from small [OF that(2) j(1,3)] have lt: "edge_costs (nodes c ! i) ! j < max_distance c"
      using j(3) by simp
    from setup_edges_result [of "?reset i" "max_distance c" ?src 0] j(1,2) lt
    obtain j' where j': "j' < unat (edge_count (nodes c ! i))" "edges (nodes c ! i) ! j' = ?src"
      "setup_edges ?src (?reset i) 0
         = (?reset i)\<lparr> distance := edge_costs (nodes c ! i) ! j', previous_node := ?src \<rparr>"
      by auto
    from j'(1,2) in_costs_to_iff [OF oki [OF that(2)]]
    have "edge_costs (nodes c ! i) ! j' \<in> set (costs_to (nodes c ! i) ?src)" by blast
    from short_list_unique [OF once [OF that(1,2)] this that(3)] j'(3) nodei [OF that(1,2)]
    show ?thesis by simp
  qed
  have G2: "shortest_path_known (nodes ?c' ! 0) \<and> distance (nodes ?c' ! 0) = 0"
    using node0 z by simp
  have G3: "\<forall>i. 1 \<le> i \<and> i < node_count ?c' \<and> distance (nodes ?c' ! i) \<noteq> max_distance ?c' \<longrightarrow>
          path_cost ?c' (node_id (nodes ?c' ! i)) (unat (distance (nodes ?c' ! i)))"
  proof (intro allI impI)
    fix i assume "1 \<le> i \<and> i < node_count ?c' \<and> distance (nodes ?c' ! i) \<noteq> max_distance ?c'"
    then have i: "1 \<le> i" "i < ?n" "distance (nodes ?c' ! i) \<noteq> max_distance c"
      by (simp_all add: n' M')
    from hit [OF i] in_costs_to_iff [OF oki [OF i(2)]]
    have "distance (nodes ?c' ! i) \<in> set (costs_to (nodes c ! i) ?src)" by blast
    with symi [OF i(1,2)]
    have "distance (nodes ?c' ! i) \<in> set (costs_to (nodes c ! 0) (node_id (nodes c ! i)))" by simp
    with in_costs_to_iff [OF oki [of 0]] d(1)
    obtain j where j: "j < unat (edge_count (nodes c ! 0))"
      "edges (nodes c ! 0) ! j = node_id (nodes c ! i)"
      "edge_costs (nodes c ! 0) ! j = distance (nodes ?c' ! i)" by auto
    from d(1) have "0 < ?n" by simp
    with j i(2) have "stored_edge c ?src (node_id (nodes c ! i)) (unat (distance (nodes ?c' ! i)))"
      unfolding stored_edge_iff [OF ok]
      by (intro conjI exI [of _ 0] exI [of _ j] exI [of _ i]) simp_all
    with path_cost.path_start [of c]
    have "path_cost c (node_id (nodes c ! i)) (0 + unat (distance (nodes ?c' ! i)))"
      by (rule path_cost.path_step)
    then show "path_cost ?c' (node_id (nodes ?c' ! i)) (unat (distance (nodes ?c' ! i)))"
      by (simp add: pc' id')
  qed
  have G4: "\<forall>i. 1 \<le> i \<and> i < node_count ?c' \<and> shortest_path_known (nodes ?c' ! i) \<longrightarrow>
          distance (nodes ?c' ! i) \<noteq> max_distance ?c' \<and>
          (\<forall>k'. path_cost ?c' (node_id (nodes ?c' ! i)) k' \<longrightarrow> unat (distance (nodes ?c' ! i)) \<le> k') \<and>
          unat (distance (nodes ?c' ! i)) * node_count ?c'
            \<le> (node_count ?c' - 1) * (unat (max_distance ?c') - 1)"
    using unknown by (auto simp: n')
  have G5: "\<forall>u v w. u < node_count ?c' \<and> v < node_count ?c' \<and>
          shortest_path_known (nodes ?c' ! u) \<and> \<not> shortest_path_known (nodes ?c' ! v) \<and>
          stored_edge ?c' (node_id (nodes ?c' ! u)) (node_id (nodes ?c' ! v)) w \<longrightarrow>
          unat (distance (nodes ?c' ! v)) \<le> unat (distance (nodes ?c' ! u)) + w"
  proof (intro allI impI)
    fix u v w
    assume a: "u < node_count ?c' \<and> v < node_count ?c' \<and>
          shortest_path_known (nodes ?c' ! u) \<and> \<not> shortest_path_known (nodes ?c' ! v) \<and>
          stored_edge ?c' (node_id (nodes ?c' ! u)) (node_id (nodes ?c' ! v)) w"
    then have u: "u < ?n" and v: "v < ?n"
      and ku: "shortest_path_known (nodes ?c' ! u)" and kv: "\<not> shortest_path_known (nodes ?c' ! v)"
      and se: "stored_edge c (node_id (nodes c ! u)) (node_id (nodes c ! v)) w"
      by (simp_all add: n' se' id')
    from ku unknown [of u] u have u0: "u = 0" by (cases "u = 0") auto
    from kv G2 have v1: "1 \<le> v" by (cases "v = 0") auto
    from se u0 stored_edge_iff [OF ok, of ?src "node_id (nodes c ! v)" w]
    obtain iu j where iu: "iu < ?n" "node_id (nodes c ! iu) = ?src"
      and j: "j < unat (edge_count (nodes c ! iu))"
        "edges (nodes c ! iu) ! j = node_id (nodes c ! v)"
        "unat (edge_costs (nodes c ! iu) ! j) = w"
      by auto
    from d(1) have "0 < ?n" by simp
    from distinct_idsD [OF dist d(2) iu(1) this iu(2)] have "iu = 0" .
    with j in_costs_to_iff [OF oki [of 0]] d(1)
    have "edge_costs (nodes c ! 0) ! j \<in> set (costs_to (nodes c ! 0) (node_id (nodes c ! v)))"
      by auto
    with symi [OF v1 v] have "edge_costs (nodes c ! 0) ! j \<in> set (costs_to (nodes c ! v) ?src)"
      by simp
    from only [OF v1 v this] j(3) \<open>iu = 0\<close>
    show "unat (distance (nodes ?c' ! v)) \<le> unat (distance (nodes ?c' ! u)) + w" by simp
  qed
  have G6: "\<forall>i. 1 \<le> i \<and> i < node_count ?c' \<and> \<not> shortest_path_known (nodes ?c' ! i) \<and>
          distance (nodes ?c' ! i) \<noteq> max_distance ?c' \<longrightarrow>
          unat (distance (nodes ?c' ! i)) * node_count ?c' \<le> 1 * (unat (max_distance ?c') - 1)"
  proof (intro allI impI)
    fix i assume "1 \<le> i \<and> i < node_count ?c' \<and> \<not> shortest_path_known (nodes ?c' ! i) \<and>
          distance (nodes ?c' ! i) \<noteq> max_distance ?c'"
    then have i: "1 \<le> i" "i < ?n" "distance (nodes ?c' ! i) \<noteq> max_distance c"
      by (simp_all add: n' M')
    from hit [OF i] obtain j where "j < unat (edge_count (nodes c ! i))"
      "edge_costs (nodes c ! i) ! j = distance (nodes ?c' ! i)" by blast
    from small [OF i(2) this]
    show "unat (distance (nodes ?c' ! i)) * node_count ?c' \<le> 1 * (unat (max_distance ?c') - 1)"
      by (simp add: n' M')
  qed
  from d(1) have G1: "(1::nat) \<le> 1 \<and> 1 \<le> node_count ?c'" by (simp add: n')
  show ?thesis
    unfolding loop_inv_def using G1 G2 G3 G4 G5 G6 by blast
qed

text \<open>
  In the example with the edge of node 2 to itself every edge costs at least 5, so
  every path other than the empty one does.
\<close>

lemma self_edge_example_paths:
  assumes "path_cost self_edge_example v k"
  shows "k = 0 \<or> 5 \<le> k"
  using assms
proof induction
  case path_start
  show ?case by simp
next
  case (path_step u k v w)
  have ok: "calc_ok 2 self_edge_example" by code_simp
  have n: "node_count self_edge_example = 2" by code_simp
  have c0: "unat (edge_count (nodes self_edge_example ! 0)) = 1"
    "unat (edge_costs (nodes self_edge_example ! 0) ! 0) = 5"
    by (simp_all add: self_edge_example_def node_of_edges_def)
  have c1: "unat (edge_count (nodes self_edge_example ! 1)) = 2"
    "unat (edge_costs (nodes self_edge_example ! 1) ! 0) = 5"
    "unat (edge_costs (nodes self_edge_example ! 1) ! 1) = 4294967295"
    by (simp_all add: self_edge_example_def node_of_edges_def)
  from path_step.hyps(2) stored_edge_iff [OF ok, of u v w] n
  obtain i j where ij: "i < 2" "j < unat (edge_count (nodes self_edge_example ! i))"
    "unat (edge_costs (nodes self_edge_example ! i) ! j) = w" by auto
  from ij(1) consider "i = 0" | "i = 1" by linarith
  then have "5 \<le> w"
  proof cases
    case 1
    with ij c0 show ?thesis by auto
  next
    case 2
    with ij(2) c1(1) have "j < 2" by simp
    then consider "j = 0" | "j = 1" by linarith
    then show ?thesis using 2 ij(3) c1 by cases auto
  qed
  then show ?case by simp
qed

section \<open>Lemmas about cleanup\<close>

lemma reachable_finite:
  fixes c :: "('i::len, 'c::len) calculator"
  assumes ok: "calc_ok max_edges c" and dist: "distinct_ids c"
    and mx: "max_distance c = - 1" and cb: "costs_bounded c"
    and inv: "loop_inv c k"
    and rest: "\<And>i. 1 \<le> i \<Longrightarrow> i < node_count c \<Longrightarrow> \<not> shortest_path_known (nodes c ! i)
                 \<Longrightarrow> distance (nodes c ! i) = max_distance c"
    and pc: "path_cost c x p"
  shows "\<forall>i<node_count c. node_id (nodes c ! i) = x \<longrightarrow> distance (nodes c ! i) \<noteq> max_distance c"
  using pc
proof induction
  case path_start
  note d = calc_okD [OF ok]
  show ?case
  proof (intro allI impI)
    fix i assume "i < node_count c" "node_id (nodes c ! i) = node_id (nodes c ! 0)"
    with distinct_idsD [OF dist d(2), of i 0] d(1) have "i = 0" by simp
    with loop_invD(4) [OF inv] mx show "distance (nodes c ! i) \<noteq> max_distance c" by simp
  qed
next
  case (path_step u p v w)
  let ?n = "node_count c"
  let ?M = "unat (max_distance c)"
  note d = calc_okD [OF ok]
  note li = loop_invD [OF inv]
  have M: "?M = 2 ^ LENGTH('c) - 1" using mx by (simp add: unat_max_word)
  have "1 \<le> LENGTH('c)" using len_gt_0 [where 'a = 'c] by linarith
  then have "(2::nat) ^ 1 \<le> 2 ^ LENGTH('c)" by (intro power_increasing) simp_all
  then have Mpos: "0 < ?M" using M by simp
  from path_step.hyps(2) stored_edge_iff [OF ok, of u v w]
  obtain iu j where iu: "iu < ?n" "node_id (nodes c ! iu) = u"
    and j: "j < unat (edge_count (nodes c ! iu))" "unat (edge_costs (nodes c ! iu) ! j) = w"
    by blast
  from path_step.IH iu have fin: "distance (nodes c ! iu) \<noteq> max_distance c" by blast
  have ku: "shortest_path_known (nodes c ! iu)"
  proof (cases "iu = 0")
    case True
    with li(3) show ?thesis by simp
  next
    case False
    with rest [of iu] iu(1) fin show ?thesis by auto
  qed
  have bu: "unat (distance (nodes c ! iu)) * ?n \<le> (?n - 1) * (?M - 1)"
  proof (cases "iu = 0")
    case True
    with li(4) show ?thesis by simp
  next
    case False
    with li(6) [of iu] iu(1) ku show ?thesis by simp
  qed
  from costs_boundedD [OF cb ok iu(1) j(1)] j(2) have bw: "w * ?n < ?M" by simp
  from d(1) have "?n - 1 < ?n" by simp
  from no_wrap_bound(2) [OF bu bw this]
  have sum: "unat (distance (nodes c ! iu)) + w \<le> ?M - 1" .
  show ?case
  proof (intro allI impI)
    fix i assume i: "i < ?n" "node_id (nodes c ! i) = v"
    show "distance (nodes c ! i) \<noteq> max_distance c"
    proof (cases "shortest_path_known (nodes c ! i)")
      case True
      show ?thesis
      proof (cases "i = 0")
        case True
        with li(4) mx show ?thesis by simp
      next
        case False
        with li(6) [of i] i(1) True show ?thesis by simp
      qed
    next
      case False
      from path_step.hyps(2) iu(2) i(2)
      have "stored_edge c (node_id (nodes c ! iu)) (node_id (nodes c ! i)) w" by simp
      from li(7) [OF iu(1) i(1) ku False this] sum
      have "unat (distance (nodes c ! i)) \<le> ?M - 1" by linarith
      with Mpos have "unat (distance (nodes c ! i)) \<noteq> ?M" by linarith
      then show ?thesis by auto
    qed
  qed
qed

lemma unat_succ_u8:
  fixes x :: "8 word"
  assumes "unat x < 255"
  shows "unat (x + 1) = unat x + 1"
proof -
  from assms have "unat x + unat (1 :: 8 word) < 2 ^ LENGTH(8)" by simp
  then have "unat (x + 1) = unat x + unat (1 :: 8 word)" by (simp only: unat_add_lem)
  then show ?thesis by simp
qed

lemma distinct_without_nth:
  assumes "distinct xs"
  shows "distinct (take i xs @ drop (Suc i) xs)"
proof -
  from assms have "distinct (take i xs @ drop i xs)" by simp
  then have "distinct (take i xs)" "distinct (drop i xs)" "set (take i xs) \<inter> set (drop i xs) = {}"
    by (simp_all only: distinct_append)
  moreover have "set (drop (Suc i) xs) \<subseteq> set (drop i xs)"
    by (rule set_drop_subset_set_drop) simp
  moreover have "distinct (drop (Suc i) xs)" using assms by (rule distinct_drop)
  ultimately show ?thesis by (auto simp only: distinct_append)
qed

lemma node_default_ok: "node_ok max_edges (node_default max_edges)"
  by (simp add: node_ok_def node_default_def)

text \<open>remove of the identifier stored at a live position other than 0\<close>

lemma remove_at:
  assumes ok: "calc_ok max_edges c" and dist: "distinct_ids c"
    and i: "0 < i" "i < node_count c"
  defines "c' \<equiv> snd (remove max_edges c (node_id (nodes c ! i)))"
  shows "node_count c' = node_count c - 1" "max_distance c' = max_distance c"
    "take (node_count c') (nodes c')
       = take i (take (node_count c) (nodes c)) @ drop (Suc i) (take (node_count c) (nodes c))"
    "calc_ok max_edges c'" "distinct_ids c'" "nodes c' ! 0 = nodes c ! 0"
proof -
  let ?n = "node_count c"
  let ?L = "take ?n (nodes c)"
  let ?rs = "take i (nodes c) @ drop (i + 1) ?L @ node_default max_edges # drop ?n (nodes c)"
  note d = calc_okD [OF ok]
  have ix: "get_index_by_id c (node_id (nodes c ! i)) = i"
    using dist d(2) i(2) by (rule get_index_by_id_distinct)
  have ne: "node_id (nodes c ! i) \<noteq> node_id (nodes c ! 0)"
    using distinct_idsD [OF dist d(2) i(2), of 0] i by auto
  have live: "node_id (nodes c ! i) \<in> set (live_ids c)"
    using i(2) d(2) by (auto simp: live_ids_set)
  have c': "c' = c\<lparr> nodes := ?rs, node_count := ?n - 1 \<rparr>"
    unfolding c'_def using remove_succeeds(4) [OF d(2) ne live, of max_edges] ix by simp
  show n': "node_count c' = ?n - 1" and "max_distance c' = max_distance c"
    by (simp_all add: c')
  have ti: "take i (nodes c) = take i ?L" using i(2) by (simp add: min_absorb1)
  have l1: "length (take i ?L @ drop (i + 1) ?L) = ?n - 1" using i(2) d(2) by simp
  have "take (?n - 1) ?rs = take (?n - 1) ((take i ?L @ drop (i + 1) ?L) @
          node_default max_edges # drop ?n (nodes c))"
    by (simp add: ti)
  also have "\<dots> = take i ?L @ drop (i + 1) ?L"
    using l1 by (metis append_eq_conv_conj)
  finally show live': "take (node_count c') (nodes c') = take i ?L @ drop (Suc i) ?L"
    by (simp add: c')
  have "set ?rs \<subseteq> set (nodes c) \<union> {node_default max_edges}"
    by (auto dest: in_set_takeD in_set_dropD)
  moreover have "\<forall>x\<in>set (nodes c). node_ok max_edges x"
    using ok by (simp add: calc_ok_def list_all_iff)
  ultimately have "\<forall>x\<in>set ?rs. node_ok max_edges x"
    using node_default_ok [of max_edges] by blast
  moreover have "length ?rs = length (nodes c)" using i(2) d(2) by simp
  moreover from i have "1 \<le> ?n - 1" by simp
  ultimately show "calc_ok max_edges c'"
    using d(2) by (simp add: calc_ok_def c' list_all_iff)
  have "live_ids c' = map node_id (take i ?L @ drop (Suc i) ?L)"
    using live' by (simp add: live_ids_def)
  also have "\<dots> = take i (live_ids c) @ drop (Suc i) (live_ids c)"
    by (simp add: live_ids_def take_map drop_map)
  finally show "distinct_ids c'"
    using dist distinct_without_nth [of "live_ids c" i] by (simp add: distinct_ids_def)
  from i d(2) have "0 < length (take i (nodes c))" by simp
  then have "?rs ! 0 = take i (nodes c) ! 0" by (simp only: nth_append if_True)
  with i show "nodes c' ! 0 = nodes c ! 0"
    by (simp add: c')
qed

lemma cleanup_scan_result:
  fixes s :: "('i::len, 'c::len) calculator"
  assumes "calc_ok max_edges s" "distinct_ids s" "node_count s \<le> 255"
    "distance (nodes s ! 0) \<noteq> max_distance s" "unat cur \<le> node_count s"
  shows "\<exists>s'. cleanup_scan max_edges s cur = Some s' \<and> max_distance s' = max_distance s \<and>
              calc_ok max_edges s' \<and>
              take (node_count s') (nodes s')
                = take (unat cur) (take (node_count s) (nodes s)) @
                  filter (\<lambda>x. distance x \<noteq> max_distance s)
                    (drop (unat cur) (take (node_count s) (nodes s)))"
  using assms
proof (induction "node_count s - unat cur" arbitrary: s cur rule: less_induct)
  case less
  let ?n = "node_count s"
  let ?L = "take ?n (nodes s)"
  let ?P = "\<lambda>x. distance x \<noteq> max_distance s"
  note d = calc_okD [OF less.prems(1)]
  have len: "length ?L = ?n" using d(2) by simp
  show ?case
  proof (cases "unat cur < ?n")
    case False
    with less.prems(5) have eq: "unat cur = ?n" by simp
    from False have "cleanup_scan max_edges s cur = Some s"
      by (subst cleanup_scan.simps) simp
    then show ?thesis using eq len less.prems(1) by simp
  next
    case lt: True
    have Lc: "?L ! unat cur = nodes s ! unat cur" using lt by simp
    have split: "drop (unat cur) ?L = nodes s ! unat cur # drop (Suc (unat cur)) ?L"
      using lt len Lc by (metis Cons_nth_drop_Suc)
    show ?thesis
    proof (cases "distance (nodes s ! unat cur) = max_distance s")
      case True
      with less.prems(4) have pos: "0 < unat cur" by (cases "unat cur = 0") auto
      let ?s1 = "snd (remove max_edges s (node_id (nodes s ! unat cur)))"
      note r = remove_at [OF less.prems(1,2) pos lt]
      have eq: "cleanup_scan max_edges s cur = cleanup_scan max_edges ?s1 cur"
        using lt True by (subst cleanup_scan.simps) simp
      have "node_count ?s1 - unat cur < ?n - unat cur" using r(1) lt by simp
      moreover have "node_count ?s1 \<le> 255" using r(1) less.prems(3) by simp
      moreover have "distance (nodes ?s1 ! 0) \<noteq> max_distance ?s1"
        using r(2,6) less.prems(4) by simp
      moreover have "unat cur \<le> node_count ?s1" using r(1) lt by simp
      ultimately obtain s' where s': "cleanup_scan max_edges ?s1 cur = Some s'"
        "max_distance s' = max_distance ?s1" "calc_ok max_edges s'"
        "take (node_count s') (nodes s')
           = take (unat cur) (take (node_count ?s1) (nodes ?s1)) @
             filter (\<lambda>x. distance x \<noteq> max_distance ?s1)
               (drop (unat cur) (take (node_count ?s1) (nodes ?s1)))"
        using less.hyps [of ?s1 cur] r(4,5) by blast
      have l: "length (take (unat cur) ?L) = unat cur" using lt len by simp
      have "take (unat cur) (take (unat cur) ?L @ drop (Suc (unat cur)) ?L) = take (unat cur) ?L"
        using l by simp
      moreover have "drop (unat cur) (take (unat cur) ?L @ drop (Suc (unat cur)) ?L)
                       = drop (Suc (unat cur)) ?L"
        using l by simp
      moreover have "filter ?P (drop (unat cur) ?L) = filter ?P (drop (Suc (unat cur)) ?L)"
        using split True by simp
      ultimately have "take (node_count s') (nodes s')
                = take (unat cur) ?L @ filter ?P (drop (unat cur) ?L)"
        using s'(4) r(2,3) by simp
      with s'(1,2,3) r(2) eq show ?thesis by simp
    next
      case False
      from lt less.prems(3) have c255: "unat cur < 255" by simp
      note u = unat_succ_u8 [OF c255]
      have eq: "cleanup_scan max_edges s cur = cleanup_scan max_edges s (cur + 1)"
        using lt False by (subst cleanup_scan.simps) simp
      have "?n - unat (cur + 1) < ?n - unat cur" using u lt by simp
      moreover have "unat (cur + 1) \<le> ?n" using u lt by simp
      ultimately obtain s' where s': "cleanup_scan max_edges s (cur + 1) = Some s'"
        "max_distance s' = max_distance s" "calc_ok max_edges s'"
        "take (node_count s') (nodes s')
           = take (unat (cur + 1)) ?L @ filter ?P (drop (unat (cur + 1)) ?L)"
        using less.hyps [of s "cur + 1"] less.prems(1-4) by blast
      have "take (Suc (unat cur)) ?L = take (unat cur) ?L @ [nodes s ! unat cur]"
        using lt len Lc by (metis take_Suc_conv_app_nth)
      moreover have "filter ?P (drop (unat cur) ?L)
                       = nodes s ! unat cur # filter ?P (drop (Suc (unat cur)) ?L)"
        using split False by simp
      ultimately have "take (node_count s') (nodes s')
                = take (unat cur) ?L @ filter ?P (drop (unat cur) ?L)"
        using s'(4) u by simp
      with s'(1,2,3) eq show ?thesis by simp
    qed
  qed
qed

text \<open>
  A source whose distance is max\_distance stops the scan for ever: remove refuses the
  source, and the counter returns to 0.
\<close>

lemma cleanup_scan_stuck_at_source:
  fixes s :: "('i::len, 'c::len) calculator"
  assumes "1 \<le> node_count s" "distance (nodes s ! 0) = max_distance s"
  shows "cleanup_scan max_edges s 0 = None"
proof (rule ccontr)
  assume "cleanup_scan max_edges s 0 \<noteq> None"
  then obtain y where ret: "cleanup_scan max_edges s 0 = Some y" by auto
  from assms(1) have ix: "get_index_by_id s (node_id (nodes s ! 0)) = 0"
    by (intro get_index_by_id_eqI) simp_all
  have rm: "snd (remove max_edges s (node_id (nodes s ! 0))) = s"
    by (simp add: remove_def Let_def ix)
  have "\<not> (max_edges = max_edges \<and> s = s \<and> (0 :: 8 word) = 0)"
  proof (rule cleanup_scan.raw_induct
      [where P = "\<lambda>k' s' cur' y'. \<not> (k' = max_edges \<and> s' = s \<and> cur' = 0)", OF _ ret])
    fix scan :: "nat \<Rightarrow> ('i, 'c) calculator \<Rightarrow> 8 word \<Rightarrow> ('i, 'c) calculator option"
      and k' :: nat and s' :: "('i, 'c) calculator" and cur' :: "8 word"
      and y' :: "('i, 'c) calculator"
    assume ih: "\<And>k'' s'' cur'' y''. scan k'' s'' cur'' = Some y''
                  \<Longrightarrow> \<not> (k'' = max_edges \<and> s'' = s \<and> cur'' = 0)"
      and body: "(if unat cur' < node_count s'
       then if distance (nodes s' ! unat cur') = max_distance s'
            then scan k' (snd (remove k' s' (node_id (nodes s' ! unat cur')))) (cur' - 1 + 1)
            else scan k' s' (cur' + 1)
       else Some s') = Some y'"
    show "\<not> (k' = max_edges \<and> s' = s \<and> cur' = 0)"
    proof
      assume a: "k' = max_edges \<and> s' = s \<and> cur' = 0"
      with body assms rm have "scan max_edges s 0 = Some y'" by simp
      from ih [OF this] show False by simp
    qed
  qed
  then show False by simp
qed

section \<open>Claims about loop\<close>

text \<open>
  C7. loop finalizes at most node\_count - 1 nodes: the flag shortest\_path\_known turns
  from false to true at no more than node\_count - 1 live positions (never at the
  source's). In an iteration in which every live node other than the source that is
  not known has distance max\_distance (the minimum is infinity), the loop returns at
  once and leaves the state as it is, so these nodes keep distance max\_distance and the
  flag false. With max\_distance the largest value of the cost type, every live node
  other than the source that loop leaves not known has distance max\_distance.
\<close>

theorem loop_stops_at_unreachable:
  assumes "calc_ok max_edges c"
  shows "card {i. i < node_count c \<and> shortest_path_known (nodes (loop c) ! i) \<and>
                  \<not> shortest_path_known (nodes c ! i)} \<le> node_count c - 1 \<and>
         (\<forall>k. k < node_count c \<and>
              (\<forall>i. 1 \<le> i \<and> i < node_count c \<and> \<not> shortest_path_known (nodes c ! i)
                   \<longrightarrow> distance (nodes c ! i) = max_distance c)
              \<longrightarrow> loop_from c k = c) \<and>
         (max_distance c = - 1 \<longrightarrow>
            (\<forall>i. 1 \<le> i \<and> i < node_count c \<and> \<not> shortest_path_known (nodes (loop c) ! i)
                 \<longrightarrow> distance (nodes (loop c) ! i) = max_distance c))"
proof (intro conjI allI impI)
  from assms have pos: "1 \<le> node_count c" and le: "node_count c \<le> length (nodes c)"
    by (simp_all add: calc_ok_def)
  let ?F = "{i. i < node_count c \<and> shortest_path_known (nodes (loop c) ! i) \<and>
                \<not> shortest_path_known (nodes c ! i)}"
  have "?F \<subseteq> {1..<node_count c}"
  proof
    fix i assume "i \<in> ?F"
    then have i: "i < node_count c" "shortest_path_known (nodes (loop c) ! i)"
      "\<not> shortest_path_known (nodes c ! i)" by simp_all
    have "i \<noteq> 0"
    proof
      assume "i = 0"
      with i(2,3) loop_from_flags [OF le, of 0 1] show False by (simp add: loop_def)
    qed
    with i(1) show "i \<in> {1..<node_count c}" by simp
  qed
  then have "card ?F \<le> card {1..<node_count c}" by (intro card_mono) simp_all
  then show "card ?F \<le> node_count c - 1" by simp
next
  fix k
  assume a: "k < node_count c \<and>
              (\<forall>i. 1 \<le> i \<and> i < node_count c \<and> \<not> shortest_path_known (nodes c ! i)
                   \<longrightarrow> distance (nodes c ! i) = max_distance c)"
  then have "fst (find_min c 1 (max_distance c, 0)) = max_distance c"
    by (intro find_min_all_far) simp
  with a show "loop_from c k = c" by (simp add: loop_from_stop)
next
  fix i
  assume m: "max_distance c = - 1"
    and i: "1 \<le> i \<and> i < node_count c \<and> \<not> shortest_path_known (nodes (loop c) ! i)"
  from assms have pos: "1 \<le> node_count c" and le: "node_count c \<le> length (nodes c)"
    by (simp_all add: calc_ok_def)
  let ?U = "{i. 1 \<le> i \<and> i < node_count c \<and> \<not> shortest_path_known (nodes c ! i)}"
  have "?U \<subseteq> {1..<node_count c}" by auto
  then have "card ?U \<le> card {1..<node_count c}" by (intro card_mono) simp_all
  with pos have cnt: "card ?U + 1 \<le> node_count c" by simp
  from i loop_from_rest_unreachable [OF le m cnt, of i]
  show "distance (nodes (loop c) ! i) = max_distance c" by (simp add: loop_def)
qed

theorem loop_stops_at_unreachable_witness:
  "calc_ok 2 (setup_phase stale_example) \<and>
   card {i. i < node_count (setup_phase stale_example) \<and>
            shortest_path_known (nodes (loop (setup_phase stale_example)) ! i) \<and>
            \<not> shortest_path_known (nodes (setup_phase stale_example) ! i)}
     \<le> node_count (setup_phase stale_example) - 1 \<and>
   1 < node_count (setup_phase stale_example) \<and>
   distance (nodes (setup_phase stale_example) ! 1) = max_distance (setup_phase stale_example) \<and>
   distance (nodes (setup_phase stale_example) ! 2) = max_distance (setup_phase stale_example) \<and>
   loop_from (setup_phase stale_example) 1 = setup_phase stale_example \<and>
   max_distance (setup_phase stale_example) = - 1 \<and>
   \<not> shortest_path_known (nodes (loop (setup_phase stale_example)) ! 2) \<and>
   distance (nodes (loop (setup_phase stale_example)) ! 2) = max_distance (setup_phase stale_example)"
proof -
  let ?c = "setup_phase stale_example"
  have ok: "calc_ok 2 ?c" by code_simp
  have n: "node_count ?c = 3" by code_simp
  have d1: "distance (nodes ?c ! 1) = max_distance ?c"
    and d2: "distance (nodes ?c ! 2) = max_distance ?c" by code_simp+
  have m: "max_distance ?c = - 1" by code_simp
  have u2: "\<not> shortest_path_known (nodes (loop ?c) ! 2)" by code_simp
  have far: "\<forall>i. 1 \<le> i \<and> i < node_count ?c \<and> \<not> shortest_path_known (nodes ?c ! i)
               \<longrightarrow> distance (nodes ?c ! i) = max_distance ?c"
  proof (intro allI impI)
    fix i assume "1 \<le> i \<and> i < node_count ?c \<and> \<not> shortest_path_known (nodes ?c ! i)"
    with n have "i = 1 \<or> i = 2" by auto
    with d1 d2 show "distance (nodes ?c ! i) = max_distance ?c" by auto
  qed
  note t = loop_stops_at_unreachable [OF ok]
  from t have a: "card {i. i < node_count ?c \<and> shortest_path_known (nodes (loop ?c) ! i) \<and>
            \<not> shortest_path_known (nodes ?c ! i)} \<le> node_count ?c - 1" by blast
  from t far n have b: "loop_from ?c 1 = ?c" by simp
  from t m u2 n have c: "distance (nodes (loop ?c) ! 2) = max_distance ?c" by simp
  from ok a n d1 d2 b m u2 c show ?thesis by simp
qed

text \<open>
  C1 (amended). Let the state be well formed with distinct live identifiers,
  max\_distance the largest value of the cost type and the source's distance 0; let the
  links of the source be stored symmetrically (every other live node lists the source
  at most once, and with exactly the costs with which the source lists that node); and
  let node\_count times any cost in use stay below max\_distance. Then after setup and
  loop every live node whose flag shortest\_path\_known is true has a distance that is
  the cost of a path from the source along known edges between live nodes, and no such
  path is cheaper. Without the symmetry the claim fails: the first hop is taken from
  the neighbour's record, not from the source's. Without the bound it fails as well: a
  sum that wraps around is taken for a shorter distance.
\<close>

theorem loop_computes_shortest_paths:
  assumes "calc_ok max_edges c" and "distinct_ids c"
    and "max_distance c = - 1" and "distance (nodes c ! 0) = 0"
    and "source_links_symmetric c" and "costs_bounded c"
  shows "\<forall>i<node_count c.
           shortest_path_known (nodes (loop (setup_phase c)) ! i) \<longrightarrow>
           node_id (nodes (loop (setup_phase c)) ! i) = node_id (nodes c ! i) \<and>
           shortest_path_cost c (node_id (nodes c ! i))
             (unat (distance (nodes (loop (setup_phase c)) ! i)))"
proof (intro allI impI)
  fix i assume i: "i < node_count c"
    and known: "shortest_path_known (nodes (loop (setup_phase c)) ! i)"
  let ?s = "setup_phase c"
  let ?r = "loop (setup_phase c)"
  note ts = setup_phase_topology [of c]
  note ks = topology_conditions_kept [OF ts]
  have "loop_inv ?s 1" using assms by (rule setup_phase_inv)
  with assms(1-3,6) ks(1) [of max_edges] ks(2-4) loop_from_inv [of max_edges ?s 1]
  obtain k where inv: "loop_inv ?r k" by (auto simp: loop_def)
  have tr: "same_topology c ?r"
    using ts loop_from_topology [of ?s 1] unfolding loop_def by (rule same_topology_trans)
  note pc = same_topology_path_cost [OF tr]
  from tr have n: "node_count ?r = node_count c"
    and ids: "\<And>x. node_id (nodes ?r ! x) = node_id (nodes c ! x)"
    and M: "max_distance ?r = max_distance c"
    by (simp_all add: same_topology_def)
  note li = loop_invD [OF inv]
  have "shortest_path_cost c (node_id (nodes c ! i)) (unat (distance (nodes ?r ! i)))"
  proof (cases "i = 0")
    case True
    with li(4) path_cost.path_start [of c] show ?thesis
      by (simp add: shortest_path_cost_def)
  next
    case False
    then have i1: "1 \<le> i" by simp
    from li(6) [OF i1 _ known] i
    have ne: "distance (nodes ?r ! i) \<noteq> max_distance ?r"
      and opt: "\<forall>k'. path_cost ?r (node_id (nodes ?r ! i)) k' \<longrightarrow> unat (distance (nodes ?r ! i)) \<le> k'"
      by (simp_all add: n)
    from li(5) [OF i1 _ ne] i
    have "path_cost ?r (node_id (nodes ?r ! i)) (unat (distance (nodes ?r ! i)))" by (simp add: n)
    with opt show ?thesis by (simp add: shortest_path_cost_def pc ids)
  qed
  with ids show "node_id (nodes ?r ! i) = node_id (nodes c ! i) \<and>
           shortest_path_cost c (node_id (nodes c ! i)) (unat (distance (nodes ?r ! i)))"
    by simp
qed

theorem loop_computes_shortest_paths_witness:
  "calc_ok 2 spec_example \<and> distinct_ids spec_example \<and> max_distance spec_example = - 1 \<and>
   distance (nodes spec_example ! 0) = 0 \<and> source_links_symmetric spec_example \<and>
   costs_bounded spec_example \<and>
   shortest_path_known (nodes (loop (setup_phase spec_example)) ! 2) \<and>
   node_id (nodes spec_example ! 2) = 3 \<and>
   distance (nodes (loop (setup_phase spec_example)) ! 2) = 2 \<and>
   shortest_path_cost spec_example 3 2"
proof -
  have ok: "calc_ok 2 spec_example" by (rule calc_ok_spec_example)
  have di: "distinct_ids spec_example" by code_simp
  have mx: "max_distance spec_example = - 1" by (simp add: spec_example_def)
  have z: "distance (nodes spec_example ! 0) = 0" by code_simp
  have sym: "source_links_symmetric spec_example" by code_simp
  have cb: "costs_bounded spec_example"
    by (simp add: costs_bounded_def spec_example_def links_def node_of_edges_def)
  have n: "2 < node_count spec_example" by (simp add: spec_example_def)
  have k: "shortest_path_known (nodes (loop (setup_phase spec_example)) ! 2)" by code_simp
  have i: "node_id (nodes spec_example ! 2) = 3" by code_simp
  have d: "distance (nodes (loop (setup_phase spec_example)) ! 2) = 2" by code_simp
  from loop_computes_shortest_paths [OF ok di mx z sym cb] n k i d
  have "shortest_path_cost spec_example 3 2" by auto
  with ok di mx z sym cb k i d show ?thesis by simp
qed

theorem loop_computes_shortest_paths_counterexample:
  "shortest_path_known (nodes (loop (setup_phase asym_example)) ! 1) \<and>
   node_id (nodes asym_example ! 1) = 2 \<and>
   distance (nodes (loop (setup_phase asym_example)) ! 1) = 5 \<and>
   path_cost asym_example 2 1 \<and>
   \<not> shortest_path_cost asym_example 2
       (unat (distance (nodes (loop (setup_phase asym_example)) ! 1))) \<and>
   source_links_symmetric self_edge_example \<and>
   shortest_path_known (nodes (loop (setup_phase self_edge_example)) ! 1) \<and>
   node_id (nodes self_edge_example ! 1) = 2 \<and>
   distance (nodes (loop (setup_phase self_edge_example)) ! 1) = 4 \<and>
   \<not> shortest_path_cost self_edge_example 2
       (unat (distance (nodes (loop (setup_phase self_edge_example)) ! 1)))"
proof -
  have ok: "calc_ok 2 asym_example" by code_simp
  have k: "shortest_path_known (nodes (loop (setup_phase asym_example)) ! 1)" by code_simp
  have i: "node_id (nodes asym_example ! 1) = 2" by code_simp
  have d: "distance (nodes (loop (setup_phase asym_example)) ! 1) = 5" by code_simp
  have s: "node_id (nodes asym_example ! 0) = 1" by code_simp
  have n: "node_count asym_example = 2" by code_simp
  have e: "unat (edge_count (nodes asym_example ! 0)) = 1" "edges (nodes asym_example ! 0) ! 0 = 2"
    "unat (edge_costs (nodes asym_example ! 0) ! 0) = 1" by code_simp+
  have "stored_edge asym_example 1 2 1"
    unfolding stored_edge_iff [OF ok] using s i n e
    by (intro conjI exI [of _ 0] exI [of _ 1]) simp_all
  with path_cost.path_start [of asym_example] s
  have "path_cost asym_example 2 (0 + 1)" by (intro path_cost.path_step [of _ 1]) simp_all
  then have p: "path_cost asym_example 2 1" by simp
  then have "\<not> shortest_path_cost asym_example 2 5"
    by (auto simp: shortest_path_cost_def)
  with k i d p have first:
    "shortest_path_known (nodes (loop (setup_phase asym_example)) ! 1) \<and>
     node_id (nodes asym_example ! 1) = 2 \<and>
     distance (nodes (loop (setup_phase asym_example)) ! 1) = 5 \<and>
     path_cost asym_example 2 1 \<and>
     \<not> shortest_path_cost asym_example 2
         (unat (distance (nodes (loop (setup_phase asym_example)) ! 1)))"
    by simp
  have sym: "source_links_symmetric self_edge_example" by code_simp
  have k': "shortest_path_known (nodes (loop (setup_phase self_edge_example)) ! 1)" by code_simp
  have i': "node_id (nodes self_edge_example ! 1) = 2" by code_simp
  have d': "distance (nodes (loop (setup_phase self_edge_example)) ! 1) = 4" by code_simp
  have "\<not> path_cost self_edge_example 2 4"
    using self_edge_example_paths [of 2 4] by auto
  then have "\<not> shortest_path_cost self_edge_example 2 4"
    by (simp add: shortest_path_cost_def)
  with sym k' i' d' have second:
    "source_links_symmetric self_edge_example \<and>
     shortest_path_known (nodes (loop (setup_phase self_edge_example)) ! 1) \<and>
     node_id (nodes self_edge_example ! 1) = 2 \<and>
     distance (nodes (loop (setup_phase self_edge_example)) ! 1) = 4 \<and>
     \<not> shortest_path_cost self_edge_example 2
         (unat (distance (nodes (loop (setup_phase self_edge_example)) ! 1)))"
    by simp
  from first second show ?thesis by blast
qed

section \<open>Claims about cleanup\<close>

text \<open>
  C8 (amended). Let the state be as in C1 (well formed, distinct live identifiers,
  max\_distance the largest value of the cost type, source distance 0, links of the
  source stored symmetrically, node\_count times any cost in use below max\_distance),
  with at most 255 live nodes. Then cleanup with \<open>calculate = true\<close> returns; afterwards no
  live node other than the source has distance max\_distance; the live nodes are those
  that setup and loop left with a distance other than max\_distance, in their old order
  (no entry is skipped); and their identifiers are exactly the live identifiers that
  are reachable from the source along known edges. Without the symmetry a node that the
  source lists as a neighbour, and that does not list the source, is removed.
\<close>

theorem cleanup_removes_unreachable:
  fixes c :: "('i::len, 'c::len) calculator"
  assumes "calc_ok max_edges c" and "distinct_ids c"
    and "max_distance c = - 1" and "distance (nodes c ! 0) = 0"
    and "source_links_symmetric c" and "costs_bounded c"
    and "node_count c \<le> 255"
  shows "\<exists>c'. cleanup max_edges c True = Some c' \<and>
              (\<forall>i. 1 \<le> i \<and> i < node_count c' \<longrightarrow> distance (nodes c' ! i) \<noteq> max_distance c') \<and>
              take (node_count c') (nodes c')
                = filter (\<lambda>x. distance x \<noteq> max_distance c)
                    (take (node_count c) (nodes (loop (setup_phase c)))) \<and>
              live_ids c' = filter (reachable c) (live_ids c)"
proof -
  let ?s = "setup_phase c"
  let ?r = "loop (setup_phase c)"
  let ?n = "node_count c"
  let ?L = "take ?n (nodes ?r)"
  let ?P = "\<lambda>x. distance x \<noteq> max_distance c"
  note ts = setup_phase_topology [of c]
  note ks = topology_conditions_kept [OF ts]
  have "loop_inv ?s 1" using assms(1-6) by (rule setup_phase_inv)
  with assms(1-3,6) ks(1) [of max_edges] ks(2-4) loop_from_inv [of max_edges ?s 1]
  obtain k where inv: "loop_inv ?r k" by (auto simp: loop_def)
  have tr: "same_topology c ?r"
    using ts loop_from_topology [of ?s 1] unfolding loop_def by (rule same_topology_trans)
  note kr = topology_conditions_kept [OF tr]
  note pc = same_topology_path_cost [OF tr]
  from tr have n: "node_count ?r = ?n"
    and ids: "\<And>x. node_id (nodes ?r ! x) = node_id (nodes c ! x)"
    and M: "max_distance ?r = max_distance c"
    by (simp_all add: same_topology_def)
  have okr: "calc_ok max_edges ?r" and dr: "distinct_ids ?r" and cbr: "costs_bounded ?r"
    using assms(1,2,6) kr(1) [of max_edges] kr(2,3) by simp_all
  note d = calc_okD [OF okr]
  note li = loop_invD [OF inv]
  have oks: "calc_ok max_edges ?s" using assms(1) ks(1) [of max_edges] by simp
  have rest: "distance (nodes ?r ! i) = max_distance ?r"
    if "1 \<le> i" "i < node_count ?r" "\<not> shortest_path_known (nodes ?r ! i)" for i
  proof -
    from assms(3) ks(4) have ms: "max_distance ?s = - 1" by simp
    from ts have ns: "node_count ?s = ?n" by (simp add: same_topology_def)
    from that ns n have "i < node_count ?s" by simp
    from loop_rest_unreachable [OF calc_okD(1,2) [OF oks] ms that(1) this that(3)] ks(4) M
    show ?thesis by simp
  qed
  have z: "distance (nodes ?r ! 0) \<noteq> max_distance ?r"
    using li(4) M assms(3) by simp
  have n0: "unat (0 :: 8 word) \<le> node_count ?r" by simp
  from cleanup_scan_result [OF okr dr _ z n0] assms(7) n M
  obtain c' where c': "cleanup_scan max_edges ?r 0 = Some c'"
    "max_distance c' = max_distance c" "calc_ok max_edges c'"
    "take (node_count c') (nodes c') = filter ?P ?L"
    by auto
  have run: "cleanup max_edges c True = Some c'" using c'(1) by (simp add: cleanup_def)
  have fin: "\<forall>i. 1 \<le> i \<and> i < node_count c' \<longrightarrow> distance (nodes c' ! i) \<noteq> max_distance c'"
  proof (intro allI impI)
    fix i assume i: "1 \<le> i \<and> i < node_count c'"
    from calc_okD(2) [OF c'(3)] i
    have "i < length (take (node_count c') (nodes c'))" by simp
    then have "take (node_count c') (nodes c') ! i \<in> set (take (node_count c') (nodes c'))"
      by (rule nth_mem)
    with c'(4) have "?P (take (node_count c') (nodes c') ! i)" by simp
    with i c'(2) show "distance (nodes c' ! i) \<noteq> max_distance c'" by simp
  qed
  have reach: "?P x \<longleftrightarrow> reachable c (node_id x)" if "x \<in> set ?L" for x
  proof -
    from that d(2) n obtain i where i: "i < ?n" "x = nodes ?r ! i"
      by (auto simp: in_set_conv_nth)
    show ?thesis
    proof
      assume p: "?P x"
      show "reachable c (node_id x)"
      proof (cases "i = 0")
        case True
        with i ids [of 0] path_cost.path_start [of c] show ?thesis
          by (auto simp: reachable_def)
      next
        case False
        then have "1 \<le> i" by simp
        from li(5) [OF this] i p n M
        have "path_cost ?r (node_id (nodes ?r ! i)) (unat (distance (nodes ?r ! i)))" by simp
        with i show ?thesis by (auto simp: reachable_def pc)
      qed
    next
      assume "reachable c (node_id x)"
      then obtain p where "path_cost ?r (node_id x) p" by (auto simp: reachable_def pc)
      from reachable_finite [OF okr dr _ cbr inv rest this] assms(3) M i n
      show "?P x" by simp
    qed
  qed
  have "live_ids c' = map node_id (filter ?P ?L)"
    using c'(4) by (simp add: live_ids_def)
  also have "filter ?P ?L = filter (\<lambda>x. reachable c (node_id x)) ?L"
    using reach by (intro filter_cong) simp_all
  also have "map node_id (filter (\<lambda>x. reachable c (node_id x)) ?L)
               = filter (reachable c) (map node_id ?L)"
    by (simp add: filter_map comp_def)
  also have "map node_id ?L = live_ids c"
    using same_topology_live_ids [OF tr] n by (simp add: live_ids_def)
  finally have ids': "live_ids c' = filter (reachable c) (live_ids c)" .
  from run fin c'(4) ids' show ?thesis by blast
qed

theorem cleanup_removes_unreachable_witness:
  "calc_ok 2 island_example \<and> distinct_ids island_example \<and>
   max_distance island_example = - 1 \<and> distance (nodes island_example ! 0) = 0 \<and>
   source_links_symmetric island_example \<and> costs_bounded island_example \<and>
   node_count island_example \<le> 255 \<and>
   (\<exists>c'. cleanup 2 island_example True = Some c' \<and> node_count c' = 2 \<and>
         distance (nodes c' ! 1) \<noteq> max_distance c' \<and>
         live_ids c' = [1, 2] \<and>
         live_ids c' = filter (reachable island_example) (live_ids island_example))"
proof -
  have ok: "calc_ok 2 island_example" by code_simp
  have di: "distinct_ids island_example" by code_simp
  have mx: "max_distance island_example = - 1" by (simp add: island_example_def)
  have z: "distance (nodes island_example ! 0) = 0" by code_simp
  have sym: "source_links_symmetric island_example" by code_simp
  have cb: "costs_bounded island_example"
    by (simp add: costs_bounded_def island_example_def links_def node_of_edges_def
        node_of_id_def node_default_def)
  have n: "node_count island_example \<le> 255" by (simp add: island_example_def)
  have ev: "case cleanup 2 island_example True of
              None \<Rightarrow> False
            | Some c' \<Rightarrow> node_count c' = 2 \<and> live_ids c' = [1, 2]"
    by code_simp
  from cleanup_removes_unreachable [OF ok di mx z sym cb n]
  obtain c' where c': "cleanup 2 island_example True = Some c'"
    "\<forall>i. 1 \<le> i \<and> i < node_count c' \<longrightarrow> distance (nodes c' ! i) \<noteq> max_distance c'"
    "live_ids c' = filter (reachable island_example) (live_ids island_example)"
    by blast
  from ev c'(1) have e: "node_count c' = 2" "live_ids c' = [1, 2]" by simp_all
  with c'(2) have "distance (nodes c' ! 1) \<noteq> max_distance c'" by simp
  with c'(1,3) e have "\<exists>c'. cleanup 2 island_example True = Some c' \<and> node_count c' = 2 \<and>
         distance (nodes c' ! 1) \<noteq> max_distance c' \<and>
         live_ids c' = [1, 2] \<and>
         live_ids c' = filter (reachable island_example) (live_ids island_example)"
    by blast
  with ok di mx z sym cb n show ?thesis by blast
qed

theorem cleanup_removes_unreachable_counterexample:
  "reachable one_way_example 2 \<and> 2 \<in> set (live_ids one_way_example) \<and>
   (\<exists>c'. cleanup 2 one_way_example True = Some c' \<and> 2 \<notin> set (live_ids c'))"
proof -
  have ok: "calc_ok 2 one_way_example" by code_simp
  have s: "node_id (nodes one_way_example ! 0) = 1" by code_simp
  have i: "node_id (nodes one_way_example ! 1) = 2" by code_simp
  have n: "node_count one_way_example = 2" by code_simp
  have e: "unat (edge_count (nodes one_way_example ! 0)) = 1"
    "edges (nodes one_way_example ! 0) ! 0 = 2"
    "unat (edge_costs (nodes one_way_example ! 0) ! 0) = 1" by code_simp+
  have "stored_edge one_way_example 1 2 1"
    unfolding stored_edge_iff [OF ok] using s i n e
    by (intro conjI exI [of _ 0] exI [of _ 1]) simp_all
  with path_cost.path_start [of one_way_example] s
  have "path_cost one_way_example 2 (0 + 1)" by (intro path_cost.path_step [of _ 1]) simp_all
  then have r: "reachable one_way_example 2" by (auto simp: reachable_def)
  have l: "2 \<in> set (live_ids one_way_example)" by code_simp
  have "case cleanup 2 one_way_example True of
          None \<Rightarrow> False
        | Some c' \<Rightarrow> 2 \<notin> set (live_ids c')"
    by code_simp
  then have "\<exists>c'. cleanup 2 one_way_example True = Some c' \<and> 2 \<notin> set (live_ids c')"
    by (cases "cleanup 2 one_way_example True") simp_all
  with r l show ?thesis by blast
qed

end
